theory Spec2Isabelle
  imports Complex_Main
begin

unbundle bit_operations_syntax

section \<open>Python values and exceptions\<close>

text \<open>
  Python integers are unbounded, so rows, counters and sizes are \<^typ>\<open>int\<close>; the bitwise
  operators of \<^typ>\<open>int\<close> are the two's complement ones of Python. The two exceptions the
  program can raise are \<^verbatim>\<open>ValueError: negative shift count\<close> (from \<^verbatim>\<open>>>\<close> and \<^verbatim>\<open><<\<close>)
  and \<^verbatim>\<open>IndexError: pop from empty list\<close>.
\<close>

datatype error = ValueError | IndexError

text \<open>
  The way a call ends: it returns a value, it raises, or the recursion budget of the model
  is used up before it returns (the model's rendering of a call that does not return).
\<close>

datatype 'a outcome = Return 'a | Raised error | OutOfFuel

definition rshift :: "int \<Rightarrow> int \<Rightarrow> error + int" where
  "rshift x s = (if s < 0 then Inl ValueError else Inr (drop_bit (nat s) x))"

definition lshift :: "int \<Rightarrow> int \<Rightarrow> error + int" where
  "lshift x s = (if s < 0 then Inl ValueError else Inr (push_bit (nat s) x))"

section \<open>The row generator \<^verbatim>\<open>build_row\<close>\<close>

text \<open>
  \<^verbatim>\<open>build_row\<close> is a Python generator: it runs up to a \<^verbatim>\<open>yield\<close>, hands the candidate to
  its consumer and is resumed later. Its argument \<^verbatim>\<open>prev_rows\<close> is the very list object
  that \<^verbatim>\<open>backtrack\<close> appends to and pops from between two resumptions, so the generator
  works on the contents that list has \<^emph>\<open>when it runs\<close>, and leaves the list to its
  consumer when it stops running. A generator that has given up control is therefore a value
  of type \<open>gen\<close>: it has stopped, raised, run out of budget, or yielded a candidate; in every
  case it hands over the contents of the shared list as they are at that moment, and after a
  \<^verbatim>\<open>yield\<close> also the rest of the computation, which awaits the contents of the list at the
  time of resumption.
\<close>

datatype gen =
    StopIteration "int list"
  | GenRaise error "int list"
  | GenOutOfFuel "int list"
  | Yield int "int list" "int list \<Rightarrow> gen"

text \<open>
  The loop of the ``place 1'' branch (source lines 17--25) over
  \<^verbatim>\<open>zip(prev_rows, overlaps_needed)\<close>. The result is \<open>Inr None\<close> when the loop leaves by
  \<^verbatim>\<open>break\<close> with \<^verbatim>\<open>prune = True\<close>, and \<open>Inr (Some new_overlaps)\<close> otherwise.
\<close>

fun set_loop :: "(int \<times> int) list \<Rightarrow> int \<Rightarrow> int \<Rightarrow> int list \<Rightarrow> error + int list option" where
  "set_loop [] shift remaining_positions new_overlaps = Inr (Some new_overlaps)"
| "set_loop ((prev, needed) # rest) shift remaining_positions new_overlaps =
     (case rshift prev shift of
        Inl e \<Rightarrow> Inl e
      | Inr v \<Rightarrow>
          (let needed = (if v AND 1 \<noteq> 0 then needed - 1 else needed) in
           if needed < 0 \<or> needed > remaining_positions - 1 then Inr None
           else set_loop rest shift remaining_positions (new_overlaps @ [needed])))"

text \<open>The loop of the ``place 0'' branch (source lines 34--41).\<close>

fun clear_loop :: "(int \<times> int) list \<Rightarrow> int \<Rightarrow> int \<Rightarrow> int list \<Rightarrow> error + int list option" where
  "clear_loop [] shift remaining_positions new_overlaps = Inr (Some new_overlaps)"
| "clear_loop ((prev, needed) # rest) shift remaining_positions new_overlaps =
     (case rshift prev shift of
        Inl e \<Rightarrow> Inl e
      | Inr v \<Rightarrow>
          if v AND 1 \<noteq> 0 \<and> needed > remaining_positions - 1 then Inr None
          else clear_loop rest shift remaining_positions (new_overlaps @ [needed]))"

text \<open>
  \<^verbatim>\<open>build_row\<close> in continuation style. \<open>return\<close> is what the caller of this frame does once
  the frame is exhausted (for the outermost frame: stop); \<open>prev_rows\<close> is the
  contents of the shared list when control enters the frame. \<open>place_zero\<close> is the second
  half of the body (source lines 33--43), entered when the first half is left; it reads
  \<^verbatim>\<open>prev_rows\<close> anew. The first argument bounds the depth of the recursion.
\<close>

fun build_row ::
  "nat \<Rightarrow> int \<Rightarrow> int \<Rightarrow> int \<Rightarrow> int list \<Rightarrow> int \<Rightarrow> int \<Rightarrow> (int list \<Rightarrow> gen) \<Rightarrow> int list \<Rightarrow> gen" where
  "build_row 0 bit_index ones_left current_row overlaps_needed m n return prev_rows =
     GenOutOfFuel prev_rows"
| "build_row (Suc fuel) bit_index ones_left current_row overlaps_needed m n return prev_rows =
     (if bit_index = m then
        (if ones_left = 0 \<and> list_all (\<lambda>x. x = 0) overlaps_needed
         then Yield current_row prev_rows return
         else return prev_rows)
      else
        (let remaining_positions = m - bit_index;
             place_zero = (\<lambda>prev_rows.
               case clear_loop (zip prev_rows overlaps_needed) (m - 1 - bit_index)
                      remaining_positions [] of
                 Inl e \<Rightarrow> GenRaise e prev_rows
               | Inr None \<Rightarrow> return prev_rows
               | Inr (Some new_overlaps) \<Rightarrow>
                   build_row fuel (bit_index + 1) ones_left current_row new_overlaps m n
                     return prev_rows)
         in if ones_left > 0 then
              (case set_loop (zip prev_rows overlaps_needed) (m - 1 - bit_index)
                      remaining_positions [] of
                 Inl e \<Rightarrow> GenRaise e prev_rows
               | Inr None \<Rightarrow> place_zero prev_rows
               | Inr (Some new_overlaps) \<Rightarrow>
                   (case lshift 1 (m - 1 - bit_index) of
                      Inl e \<Rightarrow> GenRaise e prev_rows
                    | Inr b \<Rightarrow>
                        build_row fuel (bit_index + 1) (ones_left - 1) (current_row OR b)
                          new_overlaps m n place_zero prev_rows))
            else place_zero prev_rows))"

text \<open>
  Running a generator to its end while nobody touches \<^verbatim>\<open>prev_rows\<close> (as
  \<^verbatim>\<open>list(build_row(...))\<close> does): the candidates in the order they are yielded, and the
  way the iteration ends.
\<close>

primrec yields :: "gen \<Rightarrow> int list \<Rightarrow> int list" where
  "yields (StopIteration rows) prev_rows = []"
| "yields (GenRaise e rows) prev_rows = []"
| "yields (GenOutOfFuel rows) prev_rows = []"
| "yields (Yield candidate rows resume) prev_rows =
     candidate # yields (resume prev_rows) prev_rows"

primrec ending :: "gen \<Rightarrow> int list \<Rightarrow> unit outcome" where
  "ending (StopIteration rows) prev_rows = Return ()"
| "ending (GenRaise e rows) prev_rows = Raised e"
| "ending (GenOutOfFuel rows) prev_rows = OutOfFuel"
| "ending (Yield candidate rows resume) prev_rows = ending (resume prev_rows) prev_rows"

text \<open>
  A generator only reads the shared list: whenever it gives up control, the list holds what
  it held when the generator was last given control, at every resumption and whatever the
  list holds then.
\<close>

primrec reads_only :: "gen \<Rightarrow> int list \<Rightarrow> bool" where
  "reads_only (StopIteration rows) prev_rows = (rows = prev_rows)"
| "reads_only (GenRaise e rows) prev_rows = (rows = prev_rows)"
| "reads_only (GenOutOfFuel rows) prev_rows = (rows = prev_rows)"
| "reads_only (Yield candidate rows resume) prev_rows =
     (rows = prev_rows \<and> (\<forall>rows'. reads_only (resume rows') rows'))"

section \<open>The search \<^verbatim>\<open>find_minimal_hadamard\<close>\<close>

text \<open>Python's truth value of the result of \<^verbatim>\<open>backtrack\<close>: \<^verbatim>\<open>None\<close> and \<^verbatim>\<open>[]\<close> are false.\<close>

definition truthy :: "int list option \<Rightarrow> bool" where
  "truthy result = (case result of None \<Rightarrow> False | Some rows \<Rightarrow> rows \<noteq> [])"

text \<open>
  The \<^verbatim>\<open>for candidate in build_row(...)\<close> loop of \<^verbatim>\<open>backtrack\<close> (source lines 60--66). The
  list \<^verbatim>\<open>rows\<close> is mutated in place, so it is threaded through: every function returns the
  contents of the list when it is left, and the loop goes on with the list as the generator
  hands it over. A successful \<^verbatim>\<open>backtrack\<close> returns the list object itself. After
  \<^verbatim>\<open>rows.pop()\<close> the generator is resumed with the contents the list then has.
\<close>

primrec for_candidates ::
  "(int list \<Rightarrow> int list \<times> int list option outcome) \<Rightarrow> gen
     \<Rightarrow> int list \<times> int list option outcome" where
  "for_candidates backtrack (StopIteration rows) = (rows, Return None)"
| "for_candidates backtrack (GenRaise e rows) = (rows, Raised e)"
| "for_candidates backtrack (GenOutOfFuel rows) = (rows, OutOfFuel)"
| "for_candidates backtrack (Yield candidate rows resume) =
     (case backtrack (rows @ [candidate]) of
        (rows, Return result) \<Rightarrow>
          if truthy result then (rows, Return result)
          else if rows = [] then (rows, Raised IndexError)
          else for_candidates backtrack (resume (butlast rows))
      | (rows, Raised e) \<Rightarrow> (rows, Raised e)
      | (rows, OutOfFuel) \<Rightarrow> (rows, OutOfFuel))"

text \<open>
  The closure \<^verbatim>\<open>backtrack\<close>; the variables it captures (\<^verbatim>\<open>size\<close>, \<^verbatim>\<open>total_ones\<close>, \<^verbatim>\<open>m\<close>,
  \<^verbatim>\<open>n\<close>) are parameters. Every level of the recursion takes one unit of the budget, and the
  generator it starts gets what is left.
\<close>

primrec backtrack ::
  "nat \<Rightarrow> int \<Rightarrow> int \<Rightarrow> int \<Rightarrow> int \<Rightarrow> int list \<Rightarrow> int list \<times> int list option outcome" where
  "backtrack 0 size' total_ones m n rows = (rows, OutOfFuel)"
| "backtrack (Suc fuel) size' total_ones m n rows =
     (if int (length rows) = size' - 1 then (rows, Return (Some rows))
      else
        (let overlaps_needed = replicate (length rows) (n - 1) in
         for_candidates (backtrack fuel size' total_ones m n)
           (build_row fuel 0 total_ones 0 overlaps_needed m n StopIteration rows)))"

text \<open>\<^verbatim>\<open>sum(1 << (m - 1 - i) for i in range(total_ones))\<close>\<close>

primrec sum_lshift :: "int \<Rightarrow> int list \<Rightarrow> error + int" where
  "sum_lshift m [] = Inr 0"
| "sum_lshift m (i # rest) =
     (case lshift 1 (m - 1 - i) of
        Inl e \<Rightarrow> Inl e
      | Inr b \<Rightarrow> (case sum_lshift m rest of Inl e \<Rightarrow> Inl e | Inr s \<Rightarrow> Inr (b + s)))"

text \<open>
  What the program prints: the elapsed-time line (the two readings of the clock are
  parameters; the formatting of the float is not modelled) and the lines
  \<^verbatim>\<open>Row i: [...]\<close>.
\<close>

datatype line = ElapsedTime real | RowLine int "int list"

definition find_minimal_hadamard ::
  "nat \<Rightarrow> int \<Rightarrow> real \<Rightarrow> real \<Rightarrow> line list \<times> int list option outcome" where
  "find_minimal_hadamard fuel n start_time end_time =
     (let size' = 4 * n; total_ones = 2 * n - 1; m = size' - 1 in
      case sum_lshift m [0..total_ones - 1] of
        Inl e \<Rightarrow> ([], Raised e)
      | Inr first_row \<Rightarrow>
          (case backtrack fuel size' total_ones m n [first_row] of
             (matrix, Return result) \<Rightarrow> ([ElapsedTime (end_time - start_time)], Return result)
           | (matrix, Raised e) \<Rightarrow> ([], Raised e)
           | (matrix, OutOfFuel) \<Rightarrow> ([], OutOfFuel)))"

section \<open>The presenter \<^verbatim>\<open>print_hadamard_01\<close> and the main program\<close>

definition row_list :: "int \<Rightarrow> int \<Rightarrow> int list" where
  "row_list m row =
     1 # map (\<lambda>j. if drop_bit (nat (m - 1 - j)) row AND 1 \<noteq> 0 then 1 else 0) [0..m - 1]"

definition print_hadamard_01 :: "int \<Rightarrow> int list \<Rightarrow> line list" where
  "print_hadamard_01 n rows_bitmask =
     (let size' = 4 * n; m = size' - 1 in
      RowLine 0 (replicate (nat size') 1) #
      map (\<lambda>(i, row). RowLine i (row_list m row))
        (zip [1..int (length rows_bitmask)] rows_bitmask))"

text \<open>The \<^verbatim>\<open>__main__\<close> block, for any \<open>n\<close> (the source fixes \<^verbatim>\<open>n = 4\<close>, ``adjust as needed'').\<close>

definition main :: "nat \<Rightarrow> int \<Rightarrow> real \<Rightarrow> real \<Rightarrow> line list \<times> unit outcome" where
  "main fuel n start_time end_time =
     (case find_minimal_hadamard fuel n start_time end_time of
        (out, Return rows_bitmask) \<Rightarrow>
          if truthy rows_bitmask then (out @ print_hadamard_01 n (the rows_bitmask), Return ())
          else (out, Return ())
      | (out, Raised e) \<Rightarrow> (out, Raised e)
      | (out, OutOfFuel) \<Rightarrow> (out, OutOfFuel))"

section \<open>Specification vocabulary\<close>

text \<open>The number of set bits of a non-negative integer.\<close>

function popcount :: "int \<Rightarrow> nat" where
  "popcount x = (if x \<le> 0 then 0 else nat (x mod 2) + popcount (x div 2))"
  by pat_completeness auto
termination
  by (relation "measure nat") auto

declare popcount.simps [simp del]

text \<open>All bit-rows of width \<open>w\<close>, from the largest value down to \<open>0\<close>.\<close>

definition all_rows_desc :: "nat \<Rightarrow> int list" where
  "all_rows_desc w = map int (rev [0..<2 ^ w])"

text \<open>
  A row \<open>r\<close> has \<open>k\<close> set bits and shares with every accepted row exactly the number of
  set bits required for that row.
\<close>

definition candidate_ok :: "int \<Rightarrow> int list \<Rightarrow> int list \<Rightarrow> int \<Rightarrow> bool" where
  "candidate_ok k prev_rows overlaps_needed r =
     (int (popcount r) = k \<and>
      (\<forall>(prev, needed) \<in> set (zip prev_rows overlaps_needed).
          int (popcount (r AND prev)) = needed))"


text \<open>
  Rows of width \<open>4n - 1\<close> with \<open>2n - 1\<close> set bits each, any two of which (at different
  positions of the list) share exactly \<open>n - 1\<close> set bits; a design has \<open>4n - 1\<close> such rows.
\<close>

definition partial_design :: "int \<Rightarrow> int list \<Rightarrow> bool" where
  "partial_design n rows =
     ((\<forall>r \<in> set rows. 0 \<le> r \<and> r < 2 ^ nat (4 * n - 1) \<and> int (popcount r) = 2 * n - 1) \<and>
      (\<forall>i < length rows. \<forall>j < length rows.
          i \<noteq> j \<longrightarrow> int (popcount (rows ! i AND rows ! j)) = n - 1))"

definition design :: "int \<Rightarrow> int list \<Rightarrow> bool" where
  "design n rows = (int (length rows) = 4 * n - 1 \<and> partial_design n rows)"

text \<open>The \<open>w\<close> low bits of a row, from the most to the least significant.\<close>

definition bits_msb_first :: "nat \<Rightarrow> int \<Rightarrow> int list" where
  "bits_msb_first w r = map (\<lambda>j. if bit r (w - 1 - j) then 1 else 0) [0..<w]"

text \<open>
  The values a printed line carries, the mapping \<open>0 \<mapsto> -1\<close>, \<open>1 \<mapsto> +1\<close>, the dot product
  of two rows, and what it means for a square matrix \<open>H\<close> of order \<open>N\<close> to satisfy
  \<open>H \<cdot> H\<^sup>T = N \<cdot> I\<close>.
\<close>

fun row_values :: "line \<Rightarrow> int list" where
  "row_values (RowLine i vs) = vs"
| "row_values (ElapsedTime t) = []"

definition pm :: "int \<Rightarrow> int" where
  "pm b = (if b = 0 then - 1 else 1)"

definition dot :: "int list \<Rightarrow> int list \<Rightarrow> int" where
  "dot xs ys = sum_list (map2 (*) xs ys)"

definition hadamard :: "int list list \<Rightarrow> bool" where
  "hadamard H =
     (\<forall>i < length H. length (H ! i) = length H \<and> set (H ! i) \<subseteq> {- 1, 1} \<and>
        (\<forall>j < length H. dot (H ! i) (H ! j) = (if i = j then int (length H) else 0)))"

text \<open>
  What \<^verbatim>\<open>backtrack\<close> promises its caller about the shared list: a call that returns
  \<^verbatim>\<open>None\<close> leaves the list as it found it, and a call that returns a result returns the
  list object itself, which then extends the list it was given.
\<close>

definition restoring ::
  "(int list \<Rightarrow> int list \<times> int list option outcome) \<Rightarrow> bool" where
  "restoring bt = (\<forall>rows rows' out. bt rows = (rows', out) \<longrightarrow>
      (out = Return None \<longrightarrow> rows' = rows) \<and>
      (\<forall>res. out = Return (Some res) \<longrightarrow> res = rows' \<and> (\<exists>ys. rows' = rows @ ys)))"

section \<open>Bits and population counts\<close>

lemma popcount_0 [simp]: "popcount 0 = 0"
  by (simp add: popcount.simps)

lemma popcount_nonpos: "x \<le> 0 \<Longrightarrow> popcount x = 0"
  by (simp add: popcount.simps)

lemma popcount_pow_add: "0 \<le> t \<Longrightarrow> t < 2 ^ w \<Longrightarrow> popcount (2 ^ w + t) = Suc (popcount t)"
proof (induction w arbitrary: t)
  case 0
  then have "t = 0" by simp
  then show ?case by (simp add: popcount.simps)
next
  case (Suc w)
  have "(0::int) < 2 ^ Suc w" by simp
  then have pos: "\<not> (2 ^ Suc w + t \<le> 0)" using Suc.prems(1) by linarith
  have d: "(2 ^ Suc w + t) div 2 = 2 ^ w + t div 2" by simp
  have m: "(2 ^ Suc w + t) mod 2 = t mod 2" by simp
  have "popcount (2 ^ w + t div 2) = Suc (popcount (t div 2))"
    using Suc.prems by (intro Suc.IH) auto
  then have "popcount (2 ^ Suc w + t) = nat (t mod 2) + Suc (popcount (t div 2))"
    using pos d m by (subst popcount.simps) (simp del: power_Suc)
  also have "\<dots> = Suc (popcount t)"
  proof (cases "t \<le> 0")
    case True
    then have "t = 0" using Suc.prems by simp
    then show ?thesis by simp
  next
    case False
    then show ?thesis by (subst (2) popcount.simps) simp
  qed
  finally show ?case .
qed

lemma popcount_le: "0 \<le> t \<Longrightarrow> t < 2 ^ w \<Longrightarrow> popcount t \<le> w"
proof (induction w arbitrary: t)
  case 0
  then have "t = 0" by simp
  then show ?case by simp
next
  case (Suc w)
  show ?case
  proof (cases "t \<le> 0")
    case True
    then show ?thesis by (simp add: popcount_nonpos)
  next
    case False
    have "popcount (t div 2) \<le> w" using Suc.prems by (intro Suc.IH) auto
    moreover have "t mod 2 = 0 \<or> t mod 2 = 1" by presburger
    then have "nat (t mod 2) \<le> 1" by auto
    ultimately show ?thesis using False by (subst popcount.simps) simp
  qed
qed

lemma high_bits_clear:
  assumes "(0::int) \<le> t" "t < 2 ^ w" "w \<le> i"
  shows "\<not> bit t i"
proof -
  have "(2::int) ^ w \<le> 2 ^ i" using assms(3) by (simp add: power_increasing)
  then have "t < 2 ^ i" using assms(2) by linarith
  then have "t div 2 ^ i = 0" using assms(1) by simp
  then show ?thesis by (simp add: bit_iff_odd)
qed

lemma and_pow_add:
  assumes "(0::int) \<le> t" "t < 2 ^ w"
  shows "(2 ^ w + t) AND prev = of_bool (bit prev w) * 2 ^ w + (t AND prev)"
proof -
  note tb = high_bits_clear[OF assms]
  have disj: "(2::int) ^ w + t = 2 ^ w OR t"
    by (rule disjunctive_add) (use tb in \<open>auto simp: bit_exp_iff\<close>)
  have disj2: "of_bool (bit prev w) * 2 ^ w + (t AND prev)
      = of_bool (bit prev w) * 2 ^ w OR (t AND prev)"
    by (rule disjunctive_add) (use tb in \<open>auto simp: bit_exp_iff bit_and_iff\<close>)
  show ?thesis
    unfolding disj disj2
    by (rule bit_eqI) (auto simp: bit_and_iff bit_or_iff bit_exp_iff)
qed

lemma and_bounds: "(0::int) \<le> t \<Longrightarrow> t < 2 ^ w \<Longrightarrow> 0 \<le> t AND prev \<and> t AND prev < 2 ^ w"
  using AND_upper1[of t prev] by simp

lemma popcount_and_pow_add:
  assumes "(0::int) \<le> t" "t < 2 ^ w"
  shows "popcount ((2 ^ w + t) AND prev) = (if bit prev w then 1 else 0) + popcount (t AND prev)"
  using and_bounds[OF assms, of prev] popcount_pow_add[of "t AND prev" w]
  by (simp add: and_pow_add[OF assms])

lemma bit_test_iff: "(drop_bit w (prev::int) AND 1 \<noteq> 0) = bit prev w"
  by (simp add: and_one_eq bit_iff_odd_drop_bit odd_iff_mod_2_eq_one)


section \<open>Enumerating rows, and the two loops of the generator\<close>

lemma all_rows_desc_0: "all_rows_desc 0 = [0]"
  by (simp add: all_rows_desc_def)

lemma all_rows_desc_Suc:
  "all_rows_desc (Suc w) = map (\<lambda>t. 2 ^ w + t) (all_rows_desc w) @ all_rows_desc w"
proof -
  have "[0..<2 ^ Suc w] = [0..<2 ^ w] @ [2 ^ w..<2 ^ w + 2 ^ w]"
    using upt_add_eq_append[of 0 "2 ^ w" "2 ^ w"] by (simp add: mult_2)
  also have "[2 ^ w..<2 ^ w + 2 ^ w] = map (\<lambda>i. i + 2 ^ w) [0..<2 ^ w]"
    by (simp add: map_add_upt)
  finally show ?thesis
    by (simp add: all_rows_desc_def rev_map add.commute)
qed

lemma set_all_rows_desc: "set (all_rows_desc w) = {t. 0 \<le> t \<and> t < 2 ^ w}"
proof -
  have "t \<in> int ` {0..<2 ^ w} \<longleftrightarrow> 0 \<le> t \<and> t < 2 ^ w" for t
  proof
    assume "t \<in> int ` {0..<2 ^ w}"
    then obtain i where i: "t = int i" "i < 2 ^ w" by auto
    have "int i < int (2 ^ w)" using i(2) by (simp only: of_nat_less_iff)
    then show "0 \<le> t \<and> t < 2 ^ w" using i(1) by simp
  next
    assume a: "0 \<le> t \<and> t < 2 ^ w"
    then have "nat t < 2 ^ w" by (simp add: nat_less_iff)
    then have "int (nat t) \<in> int ` {0..<2 ^ w}" by (intro imageI) simp
    then show "t \<in> int ` {0..<2 ^ w}" using a by simp
  qed
  then show ?thesis by (simp add: all_rows_desc_def set_eq_iff)
qed

lemma sorted_all_rows_desc: "sorted_wrt (>) (all_rows_desc w)"
proof -
  have "sorted_wrt (<) [0..<(2::nat) ^ w]" by simp
  then have "sorted_wrt (>) (rev [0..<(2::nat) ^ w])"
    by (simp only: sorted_wrt_rev) 
  then show ?thesis
    by (simp add: all_rows_desc_def sorted_wrt_map)
qed

lemma set_loop_spec:
  assumes "0 \<le> shift"
  shows "set_loop ps shift remaining acc =
     (if \<forall>(prev, needed) \<in> set ps.
           0 \<le> needed - of_bool (bit prev (nat shift)) \<and>
           needed - of_bool (bit prev (nat shift)) \<le> remaining - 1
      then Inr (Some (acc @ map (\<lambda>(prev, needed). needed - of_bool (bit prev (nat shift))) ps))
      else Inr None)"
proof (induction ps arbitrary: acc)
  case Nil
  show ?case by simp
next
  case (Cons p ps)
  obtain prev needed where p: "p = (prev, needed)" by (cases p)
  show ?case
    using assms by (simp add: p rshift_def bit_test_iff Let_def Cons.IH)
qed

lemma clear_loop_spec:
  assumes "0 \<le> shift"
  shows "clear_loop ps shift remaining acc =
     (if \<exists>(prev, needed) \<in> set ps. bit prev (nat shift) \<and> needed > remaining - 1
      then Inr None
      else Inr (Some (acc @ map snd ps)))"
proof (induction ps arbitrary: acc)
  case Nil
  show ?case by simp
next
  case (Cons p ps)
  obtain prev needed where p: "p = (prev, needed)" by (cases p)
  show ?case
    using assms by (simp add: p rshift_def bit_test_iff Cons.IH)
qed

lemma zip_map_zip:
  "length xs = length ys \<Longrightarrow> zip xs (map f (zip xs ys)) = map (\<lambda>(x, y). (x, f (x, y))) (zip xs ys)"
  by (induction xs ys rule: list_induct2) auto

lemma set_loop_case:
  "(case set_loop ps (int w) (int w + 1) [] of
      Inl e \<Rightarrow> A e | Inr None \<Rightarrow> B | Inr (Some new_overlaps) \<Rightarrow> C new_overlaps) =
   (if \<forall>(prev, needed) \<in> set ps.
         0 \<le> needed - of_bool (bit prev w) \<and> needed - of_bool (bit prev w) \<le> int w
    then C (map (\<lambda>(prev, needed). needed - of_bool (bit prev w)) ps) else B)"
  by (simp add: set_loop_spec)

lemma clear_loop_case:
  "(case clear_loop ps (int w) (int w + 1) [] of
      Inl e \<Rightarrow> A e | Inr None \<Rightarrow> B | Inr (Some new_overlaps) \<Rightarrow> C new_overlaps) =
   (if \<exists>(prev, needed) \<in> set ps. bit prev w \<and> needed > int w then B else C (map snd ps))"
  by (simp add: clear_loop_spec)

lemma build_row_step:
  assumes sh: "m - 1 - bit_index = int w" and rem: "m - bit_index = int w + 1"
  shows "build_row (Suc fuel) bit_index k cur overlaps m n ret prevs =
     (let place_zero = (\<lambda>prev_rows.
             if \<exists>(prev, needed) \<in> set (zip prev_rows overlaps). bit prev w \<and> needed > int w
             then ret prev_rows
             else build_row fuel (bit_index + 1) k cur (map snd (zip prev_rows overlaps)) m n
                    ret prev_rows)
      in if k > 0 \<and> (\<forall>(prev, needed) \<in> set (zip prevs overlaps).
                0 \<le> needed - of_bool (bit prev w) \<and> needed - of_bool (bit prev w) \<le> int w)
         then build_row fuel (bit_index + 1) (k - 1) (cur OR 2 ^ w)
                (map (\<lambda>(prev, needed). needed - of_bool (bit prev w)) (zip prevs overlaps))
                m n place_zero prevs
         else place_zero prevs)"
proof -
  have ne: "bit_index \<noteq> m" using rem by linarith
  have l: "lshift 1 (int w) = Inr (2 ^ w)" by (simp add: lshift_def)
  show ?thesis
    unfolding build_row.simps Let_def sh rem set_loop_case clear_loop_case l
    using ne by simp
qed

lemma candidate_ok_set_bit:
  assumes t: "0 \<le> t" "t < 2 ^ w" and len: "length overlaps = length prevs"
  shows "candidate_ok k prevs overlaps (2 ^ w + t) \<longleftrightarrow>
         candidate_ok (k - 1) prevs
           (map (\<lambda>(prev, needed). needed - of_bool (bit prev w)) (zip prevs overlaps)) t"
proof -
  have z: "zip prevs (map (\<lambda>(prev, needed). needed - of_bool (bit prev w)) (zip prevs overlaps))
      = map (\<lambda>(prev, needed). (prev, needed - of_bool (bit prev w))) (zip prevs overlaps)"
    using zip_map_zip[OF len[symmetric], of "\<lambda>(prev, needed). needed - of_bool (bit prev w)"]
    by (simp add: case_prod_unfold)
  show ?thesis
    unfolding candidate_ok_def z
    by (auto simp: popcount_pow_add[OF t] popcount_and_pow_add[OF t])
qed

lemma candidate_ok_set_pruned:
  assumes t: "0 \<le> t" "t < 2 ^ w"
    and pr: "\<not> (\<forall>(prev, needed) \<in> set (zip prevs overlaps).
                0 \<le> needed - of_bool (bit prev w) \<and> needed - of_bool (bit prev w) \<le> int w)"
  shows "\<not> candidate_ok k prevs overlaps (2 ^ w + t)"
proof
  assume ok: "candidate_ok k prevs overlaps (2 ^ w + t)"
  from pr obtain prev needed where in_zip: "(prev, needed) \<in> set (zip prevs overlaps)"
    and bad: "needed - of_bool (bit prev w) < 0 \<or> needed - of_bool (bit prev w) > int w"
    by fastforce
  from ok in_zip have "int (popcount ((2 ^ w + t) AND prev)) = needed"
    by (auto simp: candidate_ok_def)
  then have eq: "needed - of_bool (bit prev w) = int (popcount (t AND prev))"
    by (auto simp: popcount_and_pow_add[OF t] split: if_splits)
  have "popcount (t AND prev) \<le> w"
    using and_bounds[OF t, of prev] by (intro popcount_le) auto
  with bad eq show False by simp
qed

lemma candidate_ok_no_ones:
  assumes t: "0 \<le> t" "t < 2 ^ w" and k: "\<not> 0 < k"
  shows "\<not> candidate_ok k prevs overlaps (2 ^ w + t)"
  using k by (simp add: candidate_ok_def popcount_pow_add[OF t])

lemma candidate_ok_clear_pruned:
  assumes t: "0 \<le> t" "t < 2 ^ w"
    and pr: "\<exists>(prev, needed) \<in> set (zip prevs overlaps). bit prev w \<and> needed > int w"
  shows "\<not> candidate_ok k prevs overlaps t"
proof
  assume ok: "candidate_ok k prevs overlaps t"
  from pr obtain prev needed where in_zip: "(prev, needed) \<in> set (zip prevs overlaps)"
    and bad: "needed > int w"
    by fastforce
  from ok in_zip have eq: "int (popcount (t AND prev)) = needed"
    by (auto simp: candidate_ok_def)
  have "popcount (t AND prev) \<le> w"
    using and_bounds[OF t, of prev] by (intro popcount_le) auto
  with bad eq show False by simp
qed

lemma candidate_ok_zero:
  assumes "length overlaps = length prevs"
  shows "candidate_ok k prevs overlaps 0 \<longleftrightarrow> k = 0 \<and> list_all (\<lambda>x. x = 0) overlaps"
proof -
  have "set overlaps = snd ` set (zip prevs overlaps)"
    using assms by (metis map_snd_zip set_map)
  then show ?thesis
    by (force simp: candidate_ok_def list_all_iff)
qed

lemma or_pow_add:
  assumes "2 ^ Suc w dvd (cur::int)"
  shows "cur OR 2 ^ w = cur + 2 ^ w"
proof -
  from assms obtain q where q: "cur = 2 ^ Suc w * q" by (auto elim: dvdE)
  have "\<not> bit cur w"
    by (simp add: q bit_iff_odd)
  then show ?thesis
    by (intro disjunctive_add[symmetric]) (auto simp: bit_exp_iff)
qed

lemma build_row_run:
  assumes "bit_index \<le> m" "nat (m - bit_index) < fuel" "length overlaps = length prevs"
    "2 ^ nat (m - bit_index) dvd cur"
  shows "yields (build_row fuel bit_index k cur overlaps m n ret prevs) prevs =
           map (\<lambda>t. cur + t)
             (filter (candidate_ok k prevs overlaps) (all_rows_desc (nat (m - bit_index))))
           @ yields (ret prevs) prevs
       \<and> ending (build_row fuel bit_index k cur overlaps m n ret prevs) prevs =
           ending (ret prevs) prevs"
  using assms
proof (induction fuel arbitrary: bit_index k cur overlaps ret)
  case 0
  then show ?case by simp
next
  case (Suc fuel)
  show ?case
  proof (cases "bit_index = m")
    case True
    then show ?thesis
      using Suc.prems(3)
      by (simp add: all_rows_desc_0 candidate_ok_zero)
  next
    case False
    define w where "w = nat (m - 1 - bit_index)"
    have sh: "m - 1 - bit_index = int w" and rem: "m - bit_index = int w + 1"
      using False Suc.prems(1) by (auto simp: w_def)
    have wS: "nat (m - bit_index) = Suc w" and w1: "nat (m - (bit_index + 1)) = w"
      using rem by auto
    have le1: "bit_index + 1 \<le> m" using False Suc.prems(1) by simp
    have fu: "nat (m - (bit_index + 1)) < fuel" using Suc.prems(2) wS w1 by simp
    have dv: "2 ^ Suc w dvd cur" using Suc.prems(4) wS by simp
    then have dv0: "2 ^ nat (m - (bit_index + 1)) dvd cur"
      unfolding w1 by (metis dvd_trans dvd_triv_left power_Suc2 mult.commute)
    have dv1: "2 ^ nat (m - (bit_index + 1)) dvd (cur OR 2 ^ w)"
      unfolding w1 or_pow_add[OF dv] using dv0[unfolded w1] by simp
    let ?L = "all_rows_desc w"
    have inL: "0 \<le> t \<and> t < 2 ^ w" if "t \<in> set ?L" for t
      using that by (simp add: set_all_rows_desc)
    define place_zero where "place_zero = (\<lambda>prev_rows.
             if \<exists>(prev, needed) \<in> set (zip prev_rows overlaps). bit prev w \<and> needed > int w
             then ret prev_rows
             else build_row fuel (bit_index + 1) k cur (map snd (zip prev_rows overlaps)) m n
                    ret prev_rows)"
    have ms: "map snd (zip prevs overlaps) = overlaps"
      using Suc.prems(3) by (simp add: map_snd_zip)
    have zero: "yields (place_zero prevs) prevs =
           map (\<lambda>t. cur + t) (filter (candidate_ok k prevs overlaps) ?L) @ yields (ret prevs) prevs
         \<and> ending (place_zero prevs) prevs = ending (ret prevs) prevs"
    proof (cases "\<exists>(prev, needed) \<in> set (zip prevs overlaps). bit prev w \<and> needed > int w")
      case True
      have "filter (candidate_ok k prevs overlaps) ?L = []"
        using candidate_ok_clear_pruned[OF _ _ True] inL by (auto simp: filter_empty_conv)
      then show ?thesis using True by (simp add: place_zero_def)
    next
      case False
      then show ?thesis
        using Suc.IH[OF le1 fu Suc.prems(3) dv0, of k ret]
        by (simp add: place_zero_def ms w1)
    qed
    have step: "build_row (Suc fuel) bit_index k cur overlaps m n ret prevs =
      (if k > 0 \<and> (\<forall>(prev, needed) \<in> set (zip prevs overlaps).
                0 \<le> needed - of_bool (bit prev w) \<and> needed - of_bool (bit prev w) \<le> int w)
         then build_row fuel (bit_index + 1) (k - 1) (cur OR 2 ^ w)
                (map (\<lambda>(prev, needed). needed - of_bool (bit prev w)) (zip prevs overlaps))
                m n place_zero prevs
         else place_zero prevs)"
      unfolding build_row_step[OF sh rem] place_zero_def Let_def ..
    have split: "filter (candidate_ok k prevs overlaps) (all_rows_desc (Suc w)) =
        map (\<lambda>t. 2 ^ w + t) (filter (\<lambda>t. candidate_ok k prevs overlaps (2 ^ w + t)) ?L)
        @ filter (candidate_ok k prevs overlaps) ?L"
      by (simp add: all_rows_desc_Suc filter_map comp_def)
    show ?thesis
    proof (cases "k > 0 \<and> (\<forall>(prev, needed) \<in> set (zip prevs overlaps).
                0 \<le> needed - of_bool (bit prev w) \<and> needed - of_bool (bit prev w) \<le> int w)")
      case True
      let ?new = "map (\<lambda>(prev, needed). needed - of_bool (bit prev w)) (zip prevs overlaps)"
      have len: "length ?new = length prevs" using Suc.prems(3) by simp
      have f: "filter (\<lambda>t. candidate_ok k prevs overlaps (2 ^ w + t)) ?L =
               filter (candidate_ok (k - 1) prevs ?new) ?L"
        using inL by (intro filter_cong refl candidate_ok_set_bit Suc.prems(3)) auto
      have "build_row (Suc fuel) bit_index k cur overlaps m n ret prevs =
          build_row fuel (bit_index + 1) (k - 1) (cur OR 2 ^ w) ?new m n place_zero prevs"
        unfolding step using True by (rule if_P)
      then show ?thesis
        using Suc.IH[OF le1 fu len dv1, of "k - 1" place_zero] zero
        by (simp del: build_row.simps add: wS split f w1 or_pow_add[OF dv] add.assoc comp_def)
    next
      case False
      have "\<not> candidate_ok k prevs overlaps (2 ^ w + t)" if "t \<in> set ?L" for t
      proof (cases "0 < k")
        case True
        with False have pr: "\<not> (\<forall>(prev, needed) \<in> set (zip prevs overlaps).
                0 \<le> needed - of_bool (bit prev w) \<and> needed - of_bool (bit prev w) \<le> int w)"
          by blast
        show ?thesis
          using inL[OF that] by (intro candidate_ok_set_pruned[OF _ _ pr]) auto
      next
        case False
        show ?thesis
          using inL[OF that] by (intro candidate_ok_no_ones[OF _ _ False]) auto
      qed
      then have "filter (\<lambda>t. candidate_ok k prevs overlaps (2 ^ w + t)) ?L = []"
        by (simp add: filter_empty_conv)
      moreover have "build_row (Suc fuel) bit_index k cur overlaps m n ret prevs = place_zero prevs"
        unfolding step using False by (rule if_not_P)
      ultimately show ?thesis
        using zero by (simp del: build_row.simps add: wS split)
    qed
  qed
qed

section \<open>The candidates of \<^verbatim>\<open>build_row\<close>\<close>

text \<open>
  Claim C3. A call \<^verbatim>\<open>build_row(0, k, 0, prev_rows, req, m, n)\<close> with one requirement per
  accepted row, run to its end, yields exactly the rows \<open>r\<close> with \<open>0 \<le> r < 2 ^ m\<close> that have
  \<open>k\<close> set bits and share with every accepted row the required number of set bits: no
  valid row is pruned and no other row is yielded. At \<open>bit_index = m\<close> the accumulated row
  is yielded if and only if no ones are left and every requirement is \<open>0\<close>. (Neither
  \<open>0 \<le> k\<close> nor the non-negativity of the requirements is needed.)
\<close>

theorem build_row_yields_exactly_the_valid_rows:
  assumes "0 \<le> m" and "nat m < fuel" and "length overlaps_needed = length prev_rows"
  shows "set (yields (build_row fuel 0 k 0 overlaps_needed m n StopIteration prev_rows)
                prev_rows)
           = {r. 0 \<le> r \<and> r < 2 ^ nat m \<and> candidate_ok k prev_rows overlaps_needed r}
       \<and> yields (build_row fuel m ones_left current_row overlaps_needed m n
                   StopIteration prev_rows) prev_rows
           = (if ones_left = 0 \<and> (\<forall>x \<in> set overlaps_needed. x = 0) then [current_row] else [])"
proof
  show "set (yields (build_row fuel 0 k 0 overlaps_needed m n StopIteration prev_rows)
                prev_rows)
           = {r. 0 \<le> r \<and> r < 2 ^ nat m \<and> candidate_ok k prev_rows overlaps_needed r}"
    using build_row_run[of 0 m fuel overlaps_needed prev_rows 0 k n StopIteration] assms
    by (auto simp: set_all_rows_desc)
  obtain f where f: "fuel = Suc f" using assms(2) by (cases fuel) auto
  show "yields (build_row fuel m ones_left current_row overlaps_needed m n
                   StopIteration prev_rows) prev_rows
           = (if ones_left = 0 \<and> (\<forall>x \<in> set overlaps_needed. x = 0) then [current_row] else [])"
    by (simp add: f list_all_iff)
qed

theorem build_row_yields_exactly_the_valid_rows_witness:
  "(0::int) \<le> 3 \<and> nat 3 < (4::nat) \<and> length [0::int] = length [4::int]
   \<and> set (yields (build_row 4 0 1 0 [0] 3 1 StopIteration [4]) [4])
           = {r. 0 \<le> r \<and> r < 2 ^ nat 3 \<and> candidate_ok 1 [4] [0] r}
   \<and> yields (build_row 4 0 1 0 [0] 3 1 StopIteration [4]) [4] = [2, 1]
   \<and> yields (build_row 4 3 0 2 [0] 3 1 StopIteration [4]) [4] = [2]"
proof -
  have h: "(0::int) \<le> 3" "nat 3 < (4::nat)" "length [0::int] = length [4::int]" by simp_all
  have e: "yields (build_row 4 0 1 0 [0] 3 1 StopIteration [4]) [4] = [2, 1]"
    by code_simp
  show ?thesis
    using build_row_yields_exactly_the_valid_rows[OF h, of 1 1 0 2] h e by simp
qed

text \<open>
  Claim C4. For a prefix (a position \<open>bit_index \<le> m\<close> and an accumulated row whose bits
  below that position are all clear) and a requirement vector with one entry per accepted
  row, the candidates are yielded in strictly descending order of their value.
\<close>

theorem build_row_strictly_descending:
  assumes "bit_index \<le> m" and "nat (m - bit_index) < fuel"
    and "length overlaps_needed = length prev_rows"
    and "2 ^ nat (m - bit_index) dvd current_row"
  shows "sorted_wrt (\<lambda>a b. a > b)
           (yields (build_row fuel bit_index ones_left current_row overlaps_needed m n
                      StopIteration prev_rows) prev_rows)"
proof -
  have "sorted_wrt (\<lambda>a b. a > b)
          (filter (candidate_ok ones_left prev_rows overlaps_needed)
             (all_rows_desc (nat (m - bit_index))))"
    by (intro sorted_wrt_filter sorted_all_rows_desc)
  then show ?thesis
    using build_row_run[OF assms, of ones_left n StopIteration]
    by (simp add: sorted_wrt_map)
qed

theorem build_row_strictly_descending_witness:
  "(1::int) \<le> 3 \<and> nat (3 - 1) < (4::nat) \<and> length [1::int] = length [7::int]
   \<and> (2::int) ^ nat (3 - 1) dvd 4
   \<and> yields (build_row 4 1 1 4 [1] 3 1 StopIteration [7]) [7] = [6, 5]
   \<and> sorted_wrt (\<lambda>a b. a > b)
        (yields (build_row 4 1 1 4 [1] 3 1 StopIteration [7]) [7])"
proof -
  have h: "(1::int) \<le> 3" "nat (3 - 1) < (4::nat)" "length [1::int] = length [7::int]"
    "(2::int) ^ nat (3 - 1) dvd 4" by simp_all
  have e: "yields (build_row 4 1 1 4 [1] 3 1 StopIteration [7]) [7] = [6, 5]"
    by code_simp
  show ?thesis
    using build_row_strictly_descending[OF h, of 1 1] h e by simp
qed

section \<open>The shared list of rows\<close>

lemma build_row_reads_only:
  assumes "\<And>rows. reads_only (return rows) rows"
  shows "reads_only (build_row fuel bit_index ones_left current_row overlaps_needed m n return
                       prev_rows) prev_rows"
  using assms
proof (induction fuel arbitrary: bit_index ones_left current_row overlaps_needed return prev_rows)
  case 0
  show ?case by simp
next
  case (Suc fuel)
  define place_zero where "place_zero = (\<lambda>prev_rows.
               case clear_loop (zip prev_rows overlaps_needed) (m - 1 - bit_index)
                      (m - bit_index) [] of
                 Inl e \<Rightarrow> GenRaise e prev_rows
               | Inr None \<Rightarrow> return prev_rows
               | Inr (Some new_overlaps) \<Rightarrow>
                   build_row fuel (bit_index + 1) ones_left current_row new_overlaps m n
                     return prev_rows)"
  have z: "reads_only (place_zero rows) rows" for rows
    unfolding place_zero_def
    using Suc.prems Suc.IH[OF Suc.prems]
    by (simp split: sum.splits option.splits)
  have b: "build_row (Suc fuel) bit_index ones_left current_row overlaps_needed m n return
             prev_rows =
     (if bit_index = m then
        (if ones_left = 0 \<and> list_all (\<lambda>x. x = 0) overlaps_needed
         then Yield current_row prev_rows return
         else return prev_rows)
      else if ones_left > 0 then
              (case set_loop (zip prev_rows overlaps_needed) (m - 1 - bit_index)
                      (m - bit_index) [] of
                 Inl e \<Rightarrow> GenRaise e prev_rows
               | Inr None \<Rightarrow> place_zero prev_rows
               | Inr (Some new_overlaps) \<Rightarrow>
                   (case lshift 1 (m - 1 - bit_index) of
                      Inl e \<Rightarrow> GenRaise e prev_rows
                    | Inr b \<Rightarrow>
                        build_row fuel (bit_index + 1) (ones_left - 1) (current_row OR b)
                          new_overlaps m n place_zero prev_rows))
            else place_zero prev_rows)"
    unfolding build_row.simps Let_def place_zero_def ..
  show ?case
    unfolding b
    using Suc.prems z Suc.IH[of place_zero, OF z]
    by (simp split: sum.splits option.splits)
qed

lemma restoringD:
  assumes "restoring bt" "bt rows = (rows', out)"
  shows "out = Return None \<Longrightarrow> rows' = rows"
    and "out = Return (Some res) \<Longrightarrow> res = rows' \<and> (\<exists>ys. rows' = rows @ ys)"
  using assms unfolding restoring_def by blast+

lemma for_candidates_Yield_cases:
  assumes bt: "restoring bt"
  obtains (found) rows' res where "bt (rows @ [candidate]) = (rows', Return (Some res))"
      "truthy (Some res)"
      "for_candidates bt (Yield candidate rows resume) = (rows', Return (Some res))"
  | (failed) "bt (rows @ [candidate]) = (rows @ [candidate], Return None)"
      "for_candidates bt (Yield candidate rows resume) = for_candidates bt (resume rows)"
  | (raised) rows' e where "bt (rows @ [candidate]) = (rows', Raised e)"
      "for_candidates bt (Yield candidate rows resume) = (rows', Raised e)"
  | (starved) rows' where "bt (rows @ [candidate]) = (rows', OutOfFuel)"
      "for_candidates bt (Yield candidate rows resume) = (rows', OutOfFuel)"
proof -
  obtain rows' out where b: "bt (rows @ [candidate]) = (rows', out)"
    by (cases "bt (rows @ [candidate])")
  show thesis
  proof (cases out)
    case (Return result)
    show ?thesis
    proof (cases result)
      case None
      then have "rows' = rows @ [candidate]"
        using restoringD(1)[OF bt b] Return by simp
      then show ?thesis
        using failed b Return None by (simp add: truthy_def)
    next
      case (Some res)
      then have r: "res = rows'" "\<exists>ys. rows' = (rows @ [candidate]) @ ys"
        using restoringD(2)[OF bt b, where res=res] Return by simp_all
      then have "truthy (Some res)" by (auto simp: truthy_def)
      then show ?thesis
        using found[of rows' res] b Return Some by simp
    qed
  next
    case (Raised e)
    then show ?thesis using raised b by simp
  next
    case OutOfFuel
    then show ?thesis using starved b by simp
  qed
qed

lemma for_candidates_restoring:
  assumes bt: "restoring bt"
    and "reads_only g rows"
    and "for_candidates bt g = (rows', out)"
  shows "(out = Return None \<longrightarrow> rows' = rows) \<and>
      (\<forall>res. out = Return (Some res) \<longrightarrow> res = rows' \<and> (\<exists>ys. rows' = rows @ ys))"
  using assms(2,3)
proof (induction g arbitrary: rows)
  case (Yield candidate rows0 resume)
  have r0: "rows0 = rows" and ro: "reads_only (resume rows) rows"
    using Yield.prems(1) by auto
  from bt show ?case
  proof (cases rule: for_candidates_Yield_cases[where bt=bt and rows=rows and candidate=candidate
          and resume=resume])
    case (found r res)
    then show ?thesis
      using restoringD(2)[OF bt found(1), where res=res] Yield.prems(2) r0 by auto
  next
    case failed
    then have "for_candidates bt (resume rows) = (rows', out)"
      using Yield.prems(2) r0 by simp
    with ro show ?thesis
      by (rule Yield.IH[OF rangeI])
  next
    case (raised r e)
    then show ?thesis using Yield.prems(2) r0 by auto
  next
    case (starved r)
    then show ?thesis using Yield.prems(2) r0 by auto
  qed
qed auto

lemma backtrack_restoring: "restoring (backtrack fuel size' total_ones m n)"
proof (induction fuel)
  case 0
  show ?case by (simp add: restoring_def)
next
  case (Suc fuel)
  show ?case
    unfolding restoring_def
  proof (intro allI impI)
    fix rows rows' out
    assume a: "backtrack (Suc fuel) size' total_ones m n rows = (rows', out)"
    show "(out = Return None \<longrightarrow> rows' = rows) \<and>
      (\<forall>res. out = Return (Some res) \<longrightarrow> res = rows' \<and> (\<exists>ys. rows' = rows @ ys))"
    proof (cases "int (length rows) = size' - 1")
      case True
      then show ?thesis using a by auto
    next
      case False
      let ?g = "build_row fuel 0 total_ones 0 (replicate (length rows) (n - 1)) m n
                  StopIteration rows"
      have "reads_only ?g rows"
        by (rule build_row_reads_only) simp
      moreover have "for_candidates (backtrack fuel size' total_ones m n) ?g = (rows', out)"
        using a False by (simp add: Let_def)
      ultimately show ?thesis
        by (rule for_candidates_restoring[OF Suc.IH])
    qed
  qed
qed

lemma for_candidates_found:
  assumes bt: "restoring bt"
    and "reads_only g rows"
    and "for_candidates bt g = (rows', Return (Some res))"
  shows "\<exists>candidate \<in> set (yields g rows).
            bt (rows @ [candidate]) = (rows', Return (Some res))"
  using assms(2,3)
proof (induction g arbitrary: rows)
  case (Yield candidate rows0 resume)
  have r0: "rows0 = rows" and ro: "reads_only (resume rows) rows"
    using Yield.prems(1) by auto
  from bt show ?case
  proof (cases rule: for_candidates_Yield_cases[where bt=bt and rows=rows and candidate=candidate
          and resume=resume])
    case (found r res')
    then show ?thesis using Yield.prems(2) r0 by simp
  next
    case failed
    then have "for_candidates bt (resume rows) = (rows', Return (Some res))"
      using Yield.prems(2) r0 by simp
    with ro
    have "\<exists>c \<in> set (yields (resume rows) rows). bt (rows @ [c]) = (rows', Return (Some res))"
      by (rule Yield.IH[OF rangeI])
    then show ?thesis by auto
  next
    case (raised r e)
    then show ?thesis using Yield.prems(2) r0 by simp
  next
    case (starved r)
    then show ?thesis using Yield.prems(2) r0 by simp
  qed
qed auto

lemma for_candidates_returns:
  assumes bt: "restoring bt"
    and "reads_only g rows"
    and "ending g rows = Return ()"
    and "\<And>candidate. \<exists>rows' result. bt (rows @ [candidate]) = (rows', Return result)"
  shows "\<exists>rows' result. for_candidates bt g = (rows', Return result)"
  using assms(2,3)
proof (induction g)
  case (Yield candidate rows0 resume)
  have r0: "rows0 = rows" and ro: "reads_only (resume rows) rows"
    using Yield.prems(1) by auto
  from bt show ?case
  proof (cases rule: for_candidates_Yield_cases[where bt=bt and rows=rows and candidate=candidate
          and resume=resume])
    case (found r res')
    then show ?thesis using r0 by simp
  next
    case failed
    have "ending (resume rows) rows = Return ()" using Yield.prems(2) by simp
    with ro have "\<exists>rows' result. for_candidates bt (resume rows) = (rows', Return result)"
      by (rule Yield.IH[OF rangeI])
    then show ?thesis using failed r0 by simp
  next
    case (raised r e)
    then show ?thesis using assms(4)[of candidate] by simp
  next
    case (starved r)
    then show ?thesis using assms(4)[of candidate] by simp
  qed
qed auto

lemma for_candidates_cong:
  assumes bt: "restoring bt"
    and "reads_only g rows"
    and "\<And>candidate. bt (rows @ [candidate]) = bt' (rows @ [candidate])"
  shows "for_candidates bt g = for_candidates bt' g"
  using assms(2)
proof (induction g)
  case (Yield candidate rows0 resume)
  have r0: "rows0 = rows" and ro: "reads_only (resume rows) rows"
    using Yield.prems(1) by auto
  have IH: "for_candidates bt (resume rows) = for_candidates bt' (resume rows)"
    using ro by (rule Yield.IH[OF rangeI])
  from bt show ?case
  proof (cases rule: for_candidates_Yield_cases[where bt=bt and rows=rows and candidate=candidate
          and resume=resume])
    case (found r res')
    then show ?thesis using assms(3)[of candidate] r0 by simp
  next
    case failed
    then show ?thesis using assms(3)[of candidate] IH r0 by (simp add: truthy_def)
  next
    case (raised r e)
    then show ?thesis using assms(3)[of candidate] r0 by simp
  next
    case (starved r)
    then show ?thesis using assms(3)[of candidate] r0 by simp
  qed
qed auto

lemma build_row_ending:
  assumes "bit_index \<le> m" "nat (m - bit_index) < fuel"
  shows "ending (build_row fuel bit_index k cur overlaps m n ret prevs) prevs
           = ending (ret prevs) prevs"
  using assms
proof (induction fuel arbitrary: bit_index k cur overlaps ret)
  case 0
  then show ?case by simp
next
  case (Suc fuel)
  show ?case
  proof (cases "bit_index = m")
    case True
    then show ?thesis by simp
  next
    case False
    define w where "w = nat (m - 1 - bit_index)"
    have sh: "m - 1 - bit_index = int w" and rem: "m - bit_index = int w + 1"
      using False Suc.prems(1) by (auto simp: w_def)
    have le1: "bit_index + 1 \<le> m" using False Suc.prems(1) by simp
    have fu: "nat (m - (bit_index + 1)) < fuel" using Suc.prems(2) rem by auto
    note IH = Suc.IH[OF le1 fu]
    show ?thesis
      unfolding build_row_step[OF sh rem] Let_def
      by (simp del: build_row.simps add: IH)
  qed
qed

lemma build_row_starved:
  assumes "bit_index \<le> m" "fuel \<le> nat (m - bit_index)"
  shows "yields (build_row fuel bit_index k cur overlaps m n ret prevs) prevs = []
       \<or> yields (build_row fuel bit_index k cur overlaps m n ret prevs) prevs
           = yields (ret prevs) prevs"
  using assms
proof (induction fuel arbitrary: bit_index k cur overlaps ret)
  case 0
  then show ?case by simp
next
  case (Suc fuel)
  have ne: "bit_index \<noteq> m" using Suc.prems by auto
  define w where "w = nat (m - 1 - bit_index)"
  have sh: "m - 1 - bit_index = int w" and rem: "m - bit_index = int w + 1"
    using ne Suc.prems(1) by (auto simp: w_def)
  have le1: "bit_index + 1 \<le> m" using ne Suc.prems(1) by simp
  have fu: "fuel \<le> nat (m - (bit_index + 1))" using Suc.prems(2) rem by auto
  note IH = Suc.IH[OF le1 fu]
  define place_zero where "place_zero = (\<lambda>prev_rows.
             if \<exists>(prev, needed) \<in> set (zip prev_rows overlaps). bit prev w \<and> needed > int w
             then ret prev_rows
             else build_row fuel (bit_index + 1) k cur (map snd (zip prev_rows overlaps)) m n
                    ret prev_rows)"
  have z: "yields (place_zero prevs) prevs = [] \<or>
           yields (place_zero prevs) prevs = yields (ret prevs) prevs"
    using IH[of k cur "map snd (zip prevs overlaps)" ret] by (simp add: place_zero_def)
  have step: "build_row (Suc fuel) bit_index k cur overlaps m n ret prevs =
      (if k > 0 \<and> (\<forall>(prev, needed) \<in> set (zip prevs overlaps).
                0 \<le> needed - of_bool (bit prev w) \<and> needed - of_bool (bit prev w) \<le> int w)
         then build_row fuel (bit_index + 1) (k - 1) (cur OR 2 ^ w)
                (map (\<lambda>(prev, needed). needed - of_bool (bit prev w)) (zip prevs overlaps))
                m n place_zero prevs
         else place_zero prevs)"
    unfolding build_row_step[OF sh rem] place_zero_def Let_def ..
  show ?case
    unfolding step
    using z IH[of "k - 1" "cur OR 2 ^ w"
        "map (\<lambda>(prev, needed). needed - of_bool (bit prev w)) (zip prevs overlaps)" place_zero]
    by (auto simp del: build_row.simps)
qed

lemma build_row_fuel_irrelevant:
  assumes "bit_index \<le> m" "nat (m - bit_index) < fuel" "nat (m - bit_index) < fuel'"
  shows "build_row fuel bit_index k cur overlaps m n ret prevs
       = build_row fuel' bit_index k cur overlaps m n ret prevs"
  using assms
proof (induction fuel arbitrary: fuel' bit_index k cur overlaps ret prevs)
  case 0
  then show ?case by simp
next
  case (Suc fuel)
  obtain f' where f': "fuel' = Suc f'" using Suc.prems(3) by (cases fuel') auto
  show ?case
  proof (cases "bit_index = m")
    case True
    then show ?thesis by (simp add: f')
  next
    case False
    define w where "w = nat (m - 1 - bit_index)"
    have sh: "m - 1 - bit_index = int w" and rem: "m - bit_index = int w + 1"
      using False Suc.prems(1) by (auto simp: w_def)
    have le1: "bit_index + 1 \<le> m" using False Suc.prems(1) by simp
    have fu: "nat (m - (bit_index + 1)) < fuel" "nat (m - (bit_index + 1)) < f'"
      using Suc.prems(2,3) rem f' by auto
    have IH: "build_row fuel (bit_index + 1) k' cur' overlaps' m n ret' prevs'
       = build_row f' (bit_index + 1) k' cur' overlaps' m n ret' prevs'"
      for k' cur' overlaps' ret' prevs'
      by (rule Suc.IH[OF le1 fu])
    show ?thesis
      unfolding f' build_row_step[OF sh rem] Let_def IH ..
  qed
qed

lemma candidate_ok_replicate:
  "candidate_ok k rows (replicate (length rows) v) c \<longleftrightarrow>
     int (popcount c) = k \<and> (\<forall>prev \<in> set rows. int (popcount (c AND prev)) = v)"
proof -
  have "set (zip rows (replicate (length rows) v)) = (\<lambda>r. (r, v)) ` set rows"
    by (induction rows) auto
  then show ?thesis by (auto simp: candidate_ok_def)
qed

lemma partial_design_snoc:
  assumes "partial_design n rows" "0 \<le> c" "c < 2 ^ nat (4 * n - 1)"
    "candidate_ok (2 * n - 1) rows (replicate (length rows) (n - 1)) c"
  shows "partial_design n (rows @ [c])"
proof -
  have c: "int (popcount c) = 2 * n - 1"
    and o: "\<And>prev. prev \<in> set rows \<Longrightarrow> int (popcount (c AND prev)) = n - 1"
    using assms(4) by (auto simp: candidate_ok_replicate)
  have o': "int (popcount (prev AND c)) = n - 1" if "prev \<in> set rows" for prev
    using o[OF that] by (simp add: and.commute)
  have "int (popcount ((rows @ [c]) ! i AND (rows @ [c]) ! j)) = n - 1"
    if "i < Suc (length rows)" "j < Suc (length rows)" "i \<noteq> j" for i j
  proof (cases "i < length rows")
    case True
    show ?thesis
    proof (cases "j < length rows")
      case True
      with \<open>i < length rows\<close> that(3) assms(1) show ?thesis
        by (simp add: partial_design_def nth_append)
    next
      case False
      then have "j = length rows" using that(2) by simp
      then show ?thesis using True o'[of "rows ! i"] by (simp add: nth_append)
    qed
  next
    case False
    then have i: "i = length rows" using that(1) by simp
    then have "j < length rows" using that by simp
    then show ?thesis using i o[of "rows ! j"] by (simp add: nth_append)
  qed
  then show ?thesis
    using assms(1-3) c by (auto simp: partial_design_def)
qed

lemma backtrack_design:
  assumes "1 \<le> n" "partial_design n rows"
    and "backtrack fuel (4 * n) (2 * n - 1) (4 * n - 1) n rows = (rows', Return (Some res))"
  shows "design n res"
  using assms(2,3)
proof (induction fuel arbitrary: rows)
  case 0
  then show ?case by simp
next
  case (Suc fuel)
  show ?case
  proof (cases "int (length rows) = 4 * n - 1")
    case True
    then show ?thesis using Suc.prems by (auto simp: design_def)
  next
    case False
    let ?g = "build_row fuel 0 (2 * n - 1) 0 (replicate (length rows) (n - 1)) (4 * n - 1) n
                StopIteration rows"
    have ro: "reads_only ?g rows"
      by (rule build_row_reads_only) simp
    have "for_candidates (backtrack fuel (4 * n) (2 * n - 1) (4 * n - 1) n) ?g
            = (rows', Return (Some res))"
      using Suc.prems(2) False by (simp add: Let_def)
    from for_candidates_found[OF backtrack_restoring ro this]
    obtain c where c: "c \<in> set (yields ?g rows)"
      and b: "backtrack fuel (4 * n) (2 * n - 1) (4 * n - 1) n (rows @ [c])
                = (rows', Return (Some res))"
      by blast
    have m: "(0::int) \<le> 4 * n - 1" using assms(1) by simp
    have "0 \<le> c \<and> c < 2 ^ nat (4 * n - 1)
        \<and> candidate_ok (2 * n - 1) rows (replicate (length rows) (n - 1)) c"
    proof (cases "nat (4 * n - 1) < fuel")
      case True
      then show ?thesis
        using c build_row_run[of 0 "4 * n - 1" fuel "replicate (length rows) (n - 1)" rows 0
            "2 * n - 1" n StopIteration] m
        by (auto simp: set_all_rows_desc)
    next
      case False
      then have "yields ?g rows = []"
        using build_row_starved[of 0 "4 * n - 1" fuel "2 * n - 1" 0
            "replicate (length rows) (n - 1)" n StopIteration rows] m
        by auto
      then show ?thesis using c by simp
    qed
    then have "partial_design n (rows @ [c])"
      using partial_design_snoc[OF Suc.prems(1)] by blast
    then show ?thesis
      using Suc.IH b by blast
  qed
qed

lemma sum_lshift_run:
  assumes "b \<le> m - 1"
  shows "\<exists>s. sum_lshift m [a..b] = Inr s \<and> 0 \<le> s \<and> s < 2 ^ nat (m - a)
            \<and> int (popcount s) = (if a \<le> b then b - a + 1 else 0)"
proof (induction "nat (b - a + 1)" arbitrary: a)
  case 0
  then have "[a..b] = []" by simp
  moreover have "\<not> a \<le> b" using 0 by simp
  ultimately show ?case by simp
next
  case (Suc d)
  then have ab: "a \<le> b" by simp
  then have l: "[a..b] = a # [a + 1..b]" by (simp add: upto_rec1)
  define w where "w = nat (m - 1 - a)"
  have sh: "m - 1 - a = int w" using ab assms by (simp add: w_def)
  have w1: "nat (m - (a + 1)) = w" and wS: "nat (m - a) = Suc w" using sh by auto
  have "d = nat (b - (a + 1) + 1)" using Suc(2) by simp
  from Suc(1)[OF this] obtain s where s: "sum_lshift m [a + 1..b] = Inr s" "0 \<le> s" "s < 2 ^ w"
    "int (popcount s) = (if a + 1 \<le> b then b - (a + 1) + 1 else 0)"
    unfolding w1 by blast
  have "sum_lshift m [a..b] = Inr (2 ^ w + s)"
    by (simp add: l s(1) sh lshift_def)
  moreover have "int (popcount (2 ^ w + s)) = b - a + 1"
    using s(4) ab by (simp add: popcount_pow_add[OF s(2,3)])
  ultimately show ?case
    using s(2,3) ab by (simp add: wS)
qed

lemma first_row:
  assumes "1 \<le> n"
  shows "\<exists>first_row. sum_lshift (4 * n - 1) [0..2 * n - 1 - 1] = Inr first_row
           \<and> partial_design n [first_row]"
proof -
  from sum_lshift_run[of "2 * n - 1 - 1" "4 * n - 1" 0] assms
  obtain s where "sum_lshift (4 * n - 1) [0..2 * n - 1 - 1] = Inr s" "0 \<le> s"
    "s < 2 ^ nat (4 * n - 1)" "int (popcount s) = 2 * n - 1"
    by auto
  then show ?thesis by (auto simp: partial_design_def)
qed

lemma find_minimal_hadamard_unfold:
  assumes "1 \<le> n"
  obtains first_row where "partial_design n [first_row]"
    and "\<And>fuel start_time end_time. find_minimal_hadamard fuel n start_time end_time =
      (case backtrack fuel (4 * n) (2 * n - 1) (4 * n - 1) n [first_row] of
         (matrix, Return result) \<Rightarrow> ([ElapsedTime (end_time - start_time)], Return result)
       | (matrix, Raised e) \<Rightarrow> ([], Raised e)
       | (matrix, OutOfFuel) \<Rightarrow> ([], OutOfFuel))"
proof -
  from first_row[OF assms(1)] obtain r where r: "sum_lshift (4 * n - 1) [0..2 * n - 1 - 1] = Inr r"
    and pd: "partial_design n [r]" by blast
  show thesis
    by (rule that[OF pd]) (simp only: find_minimal_hadamard_def Let_def r sum.case)
qed

lemma returned_design:
  assumes "1 \<le> n"
    and "find_minimal_hadamard fuel n start_time end_time = (out, Return (Some rows))"
  shows "design n rows"
proof -
  from find_minimal_hadamard_unfold[OF assms(1)] obtain r where pd: "partial_design n [r]"
    and u: "find_minimal_hadamard fuel n start_time end_time =
      (case backtrack fuel (4 * n) (2 * n - 1) (4 * n - 1) n [r] of
         (matrix, Return result) \<Rightarrow> ([ElapsedTime (end_time - start_time)], Return result)
       | (matrix, Raised e) \<Rightarrow> ([], Raised e)
       | (matrix, OutOfFuel) \<Rightarrow> ([], OutOfFuel))"
    by metis
  obtain rows' where "backtrack fuel (4 * n) (2 * n - 1) (4 * n - 1) n [r]
      = (rows', Return (Some rows))"
    using assms(2) unfolding u
    by (auto split: prod.splits outcome.splits)
  from backtrack_design[OF assms(1) pd this] show ?thesis .
qed

section \<open>The result of the search\<close>

text \<open>
  Claim C1. For \<open>n \<ge> 1\<close>, a result returned by \<^verbatim>\<open>find_minimal_hadamard(n)\<close> is a list of
  exactly \<open>4n - 1\<close> rows of width \<open>4n - 1\<close>, each with exactly \<open>2n - 1\<close> set bits, and any
  two rows at different positions share exactly \<open>n - 1\<close> set bits.
\<close>

theorem find_minimal_hadamard_returns_design:
  assumes "1 \<le> n"
    and "find_minimal_hadamard fuel n start_time end_time = (out, Return (Some result))"
  shows "int (length result) = 4 * n - 1
       \<and> (\<forall>r \<in> set result. 0 \<le> r \<and> r < 2 ^ nat (4 * n - 1) \<and> int (popcount r) = 2 * n - 1)
       \<and> (\<forall>i < length result. \<forall>j < length result.
             i \<noteq> j \<longrightarrow> int (popcount (result ! i AND result ! j)) = n - 1)"
  using returned_design[OF assms] by (simp add: design_def partial_design_def)

text \<open>The search for \<open>n = 1\<close>, evaluated.\<close>

lemma search_1: "backtrack 8 4 1 3 1 [4] = ([4, 2, 1], Return (Some [4, 2, 1]))"
  by code_simp

lemma find_minimal_hadamard_1:
  "find_minimal_hadamard 8 1 start_time end_time
     = ([ElapsedTime (end_time - start_time)], Return (Some [4, 2, 1]))"
  by (simp add: find_minimal_hadamard_def lshift_def search_1 upto_rec1)

theorem find_minimal_hadamard_returns_design_witness:
  "(1::int) \<le> 1
   \<and> find_minimal_hadamard 8 1 0 1 = ([ElapsedTime 1], Return (Some [4, 2, 1]))
   \<and> design 1 [4, 2, 1]
   \<and> map popcount [4, 2, 1] = [1, 1, 1]
   \<and> map popcount [4 AND 2, 4 AND 1, 2 AND 1] = [0, 0, 0]"
proof -
  have h: "(1::int) \<le> 1" by simp
  have e: "find_minimal_hadamard 8 1 0 1 = ([ElapsedTime 1], Return (Some [4, 2, 1]))"
    using find_minimal_hadamard_1[of 0 1] by simp
  have p: "map popcount [4, 2, 1] = [1, 1, 1]"
    "map popcount [4 AND 2, 4 AND 1, 2 AND 1] = [0, 0, 0]"
    by code_simp+
  have "design 1 [4, 2, 1]"
    unfolding design_def partial_design_def
    using find_minimal_hadamard_returns_design[OF h e] by simp
  then show ?thesis using h e p by simp
qed

text \<open>
  Claim C8. Whenever \<^verbatim>\<open>backtrack(rows)\<close> returns \<^verbatim>\<open>None\<close>, the list \<^verbatim>\<open>rows\<close> holds
  exactly what it held at entry, for every list and all values of the captured variables;
  the same holds for the candidate loop alone, run on a generator that only reads the list:
  every append is undone by a pop. In particular an exhausted search from
  \<^verbatim>\<open>[first_row]\<close> leaves \<^verbatim>\<open>[first_row]\<close>.
\<close>

theorem backtrack_restores_rows_on_failure:
  "(backtrack fuel size' total_ones m n rows = (rows', Return None) \<longrightarrow> rows' = rows)
   \<and> (reads_only g rows
        \<and> for_candidates (backtrack fuel size' total_ones m n) g = (rows', Return None)
        \<longrightarrow> rows' = rows)"
  using restoringD(1)[OF backtrack_restoring]
    for_candidates_restoring[OF backtrack_restoring]
  by blast

theorem backtrack_restores_rows_on_failure_witness:
  "backtrack 8 4 1 3 1 [6] = ([6], Return None)
   \<and> yields (build_row 7 0 1 0 [0] 3 1 StopIteration [6]) [6] = [1]
   \<and> for_candidates (backtrack 7 4 1 3 1) (build_row 7 0 1 0 [0] 3 1 StopIteration [6])
       = ([6], Return None)"
proof -
  let ?g = "build_row 7 0 1 0 [0] 3 1 StopIteration [6]"
  have e: "backtrack 8 4 1 3 1 [6] = (fst (backtrack 8 4 1 3 1 [6]), Return None)"
    "yields ?g [6] = [1]"
    "for_candidates (backtrack 7 4 1 3 1) ?g
     = (fst (for_candidates (backtrack 7 4 1 3 1) ?g), Return None)"
    by code_simp+
  have ro: "reads_only ?g [6]"
    by (rule build_row_reads_only) simp
  from backtrack_restores_rows_on_failure[of 8 4 1 3 1 "[6]" "fst (backtrack 8 4 1 3 1 [6])"]
    backtrack_restores_rows_on_failure[of 7 4 1 3 1 "[6]"
      "fst (for_candidates (backtrack 7 4 1 3 1) ?g)" ?g] e ro
  show ?thesis by metis
qed

lemma backtrack_returns:
  assumes "1 \<le> n" "int (length rows) \<le> 4 * n - 1" "8 * n \<le> int fuel + int (length rows)"
  shows "\<exists>rows' result. backtrack fuel (4 * n) (2 * n - 1) (4 * n - 1) n rows
            = (rows', Return result)"
  using assms(2,3)
proof (induction fuel arbitrary: rows)
  case 0
  then show ?case using assms(1) by simp
next
  case (Suc fuel)
  show ?case
  proof (cases "int (length rows) = 4 * n - 1")
    case True
    then show ?thesis by simp
  next
    case False
    let ?g = "build_row fuel 0 (2 * n - 1) 0 (replicate (length rows) (n - 1)) (4 * n - 1) n
                StopIteration rows"
    have "nat (4 * n - 1 - 0) < fuel" using Suc.prems False by linarith
    then have e: "ending ?g rows = Return ()"
      using build_row_ending[of 0 "4 * n - 1" fuel] assms(1) by simp
    have c: "\<exists>rows' result. backtrack fuel (4 * n) (2 * n - 1) (4 * n - 1) n (rows @ [c])
            = (rows', Return result)" for c
      using Suc.prems False by (intro Suc.IH) auto
    have ro: "reads_only ?g rows"
      by (rule build_row_reads_only) simp
    from for_candidates_returns[OF backtrack_restoring ro e c]
    show ?thesis using False by (simp add: Let_def)
  qed
qed

lemma backtrack_fuel_irrelevant:
  assumes "1 \<le> n" "int (length rows) \<le> 4 * n - 1"
    "8 * n \<le> int fuel + int (length rows)" "8 * n \<le> int fuel' + int (length rows)"
  shows "backtrack fuel (4 * n) (2 * n - 1) (4 * n - 1) n rows
       = backtrack fuel' (4 * n) (2 * n - 1) (4 * n - 1) n rows"
  using assms(2-4)
proof (induction fuel arbitrary: fuel' rows)
  case 0
  then show ?case using assms(1) by simp
next
  case (Suc fuel)
  obtain f' where f': "fuel' = Suc f'" using Suc.prems assms(1) by (cases fuel') auto
  show ?case
  proof (cases "int (length rows) = 4 * n - 1")
    case True
    then show ?thesis by (simp add: f')
  next
    case False
    have "nat (4 * n - 1 - 0) < fuel" "nat (4 * n - 1 - 0) < f'"
      using Suc.prems False f' by linarith+
    then have g: "build_row fuel 0 k cur ov (4 * n - 1) n ret rows
                = build_row f' 0 k cur ov (4 * n - 1) n ret rows" for k cur ov ret
      using assms(1) by (intro build_row_fuel_irrelevant) auto
    have c: "backtrack fuel (4 * n) (2 * n - 1) (4 * n - 1) n (rows @ [c])
        = backtrack f' (4 * n) (2 * n - 1) (4 * n - 1) n (rows @ [c])" for c
      using Suc.prems False f' by (intro Suc.IH) auto
    have ro: "reads_only (build_row f' 0 (2 * n - 1) 0 (replicate (length rows) (n - 1))
                 (4 * n - 1) n StopIteration rows) rows"
      by (rule build_row_reads_only) simp
    from for_candidates_cong[OF backtrack_restoring ro c]
    show ?thesis using False by (simp add: Let_def f' g)
  qed
qed

lemma popcount_and_le: "0 \<le> t \<Longrightarrow> popcount (t AND prev) \<le> popcount t"
proof (induction t arbitrary: prev rule: popcount.induct)
  case (1 x)
  show ?case
  proof (cases "x \<le> 0")
    case True
    then have "x = 0" using 1(2) by simp
    then show ?thesis by simp
  next
    case False
    have d: "(x AND prev) div 2 = (x div 2) AND (prev div 2)"
      by (simp add: and_int_rec[of x prev])
    have m: "(x AND prev) mod 2 \<le> x mod 2"
      by (simp add: and_int_rec[of x prev] mod_2_eq_odd)
    have IH: "popcount ((x div 2) AND (prev div 2)) \<le> popcount (x div 2)"
      using False 1(2) by (intro 1(1)) auto
    have nn: "0 \<le> x AND prev" using 1(2) by simp
    show ?thesis
    proof (cases "x AND prev \<le> 0")
      case True
      then show ?thesis by (simp add: popcount_nonpos)
    next
      case F2: False
      have "popcount (x AND prev) = nat ((x AND prev) mod 2) + popcount ((x AND prev) div 2)"
        using F2 by (subst popcount.simps) simp
      moreover have "popcount x = nat (x mod 2) + popcount (x div 2)"
        using False by (subst popcount.simps) simp
      moreover have "nat ((x AND prev) mod 2) \<le> nat (x mod 2)"
        using m by (rule nat_mono)
      ultimately show ?thesis using d IH by simp
    qed
  qed
qed

lemma build_row_unsatisfiable:
  assumes "0 \<le> m" "nat m < fuel" "length overlaps = length prevs"
    and "\<exists>x \<in> set overlaps. x < 0 \<or> ones_left < x"
  shows "yields (build_row fuel 0 ones_left 0 overlaps m n StopIteration prevs) prevs = []"
proof -
  from assms(4) obtain x where x: "x \<in> set overlaps" "x < 0 \<or> ones_left < x" by blast
  have "set overlaps = snd ` set (zip prevs overlaps)"
    using assms(3) by (metis map_snd_zip set_map)
  with x(1) obtain prev where z: "(prev, x) \<in> set (zip prevs overlaps)" by auto
  have "\<not> candidate_ok ones_left prevs overlaps t" if "t \<in> set (all_rows_desc (nat m))" for t
  proof
    assume ok: "candidate_ok ones_left prevs overlaps t"
    have t: "0 \<le> t" using that by (simp add: set_all_rows_desc)
    from ok z have "int (popcount (t AND prev)) = x" "int (popcount t) = ones_left"
      by (auto simp: candidate_ok_def)
    with popcount_and_le[OF t, of prev] x(2) show False by linarith
  qed
  then have "filter (candidate_ok ones_left prevs overlaps) (all_rows_desc (nat m)) = []"
    by (simp add: filter_empty_conv)
  then show ?thesis
    using build_row_run[of 0 m fuel overlaps prevs 0 ones_left n StopIteration] assms(1-3)
    by simp
qed

text \<open>
  Claim C5. For \<open>n \<ge> 1\<close> the search returns, with a completed design or with \<^verbatim>\<open>None\<close>,
  once the recursion budget is at least \<open>8n\<close>. A generator started at a position
  \<open>bit_index \<le> m\<close> with a budget of more than \<open>m - bit_index\<close> frames is exhausted without
  raising, whatever the requirements are; and when some requirement is negative or exceeds
  the number of ones to place, it yields nothing.
\<close>

theorem search_terminates:
  "(1 \<le> n \<and> 8 * n \<le> int fuel \<longrightarrow>
      (\<exists>result. find_minimal_hadamard fuel n start_time end_time
                  = ([ElapsedTime (end_time - start_time)], Return result)
               \<and> (result = None \<or> (\<exists>rows. result = Some rows \<and> design n rows))))
   \<and> (bit_index \<le> m \<and> nat (m - bit_index) < depth \<longrightarrow>
        ending (build_row depth bit_index ones_left current_row overlaps_needed m n'
                  StopIteration prev_rows) prev_rows = Return ())
   \<and> (0 \<le> m \<and> nat m < depth \<and> length overlaps_needed = length prev_rows
        \<and> (\<exists>x \<in> set overlaps_needed. x < 0 \<or> ones_left < x) \<longrightarrow>
        yields (build_row depth 0 ones_left 0 overlaps_needed m n'
                  StopIteration prev_rows) prev_rows = []
        \<and> ending (build_row depth 0 ones_left 0 overlaps_needed m n'
                  StopIteration prev_rows) prev_rows = Return ())"
proof (intro conjI impI)
  assume a: "1 \<le> n \<and> 8 * n \<le> int fuel"
  from find_minimal_hadamard_unfold[of n] a obtain r where pd: "partial_design n [r]"
    and u: "find_minimal_hadamard fuel n start_time end_time =
      (case backtrack fuel (4 * n) (2 * n - 1) (4 * n - 1) n [r] of
         (matrix, Return result) \<Rightarrow> ([ElapsedTime (end_time - start_time)], Return result)
       | (matrix, Raised e) \<Rightarrow> ([], Raised e)
       | (matrix, OutOfFuel) \<Rightarrow> ([], OutOfFuel))"
    by metis
  from backtrack_returns[of n "[r]" fuel] a
  obtain rows' result where b: "backtrack fuel (4 * n) (2 * n - 1) (4 * n - 1) n [r]
      = (rows', Return result)"
    by auto
  have "result = None \<or> (\<exists>rows. result = Some rows \<and> design n rows)"
  proof (cases result)
    case (Some rows)
    with backtrack_design[OF _ pd, of fuel rows' rows] a b show ?thesis by simp
  qed simp
  then show "\<exists>result. find_minimal_hadamard fuel n start_time end_time
                  = ([ElapsedTime (end_time - start_time)], Return result)
               \<and> (result = None \<or> (\<exists>rows. result = Some rows \<and> design n rows))"
    by (simp add: u b)
next
  assume "bit_index \<le> m \<and> nat (m - bit_index) < depth"
  then show "ending (build_row depth bit_index ones_left current_row overlaps_needed m n'
                  StopIteration prev_rows) prev_rows = Return ()"
    by (simp add: build_row_ending)
next
  assume a: "0 \<le> m \<and> nat m < depth \<and> length overlaps_needed = length prev_rows
        \<and> (\<exists>x \<in> set overlaps_needed. x < 0 \<or> ones_left < x)"
  then show "yields (build_row depth 0 ones_left 0 overlaps_needed m n'
                  StopIteration prev_rows) prev_rows = []"
    by (intro build_row_unsatisfiable) auto
next
  assume a: "0 \<le> m \<and> nat m < depth \<and> length overlaps_needed = length prev_rows
        \<and> (\<exists>x \<in> set overlaps_needed. x < 0 \<or> ones_left < x)"
  then show "ending (build_row depth 0 ones_left 0 overlaps_needed m n'
                  StopIteration prev_rows) prev_rows = Return ()"
    using build_row_ending[of 0 m depth] by simp
qed

theorem search_terminates_witness:
  "((1::int) \<le> 1 \<and> 8 * 1 \<le> int 8)
   \<and> find_minimal_hadamard 8 1 0 1 = ([ElapsedTime 1], Return (Some [4, 2, 1]))
   \<and> design 1 [4, 2, 1]
   \<and> ((1::int) \<le> 3 \<and> nat (3 - 1) < (4::nat))
   \<and> ending (build_row 4 1 1 4 [7] 3 1 StopIteration [7]) [7] = Return ()
   \<and> ((0::int) \<le> 3 \<and> nat 3 < (4::nat) \<and> length [5::int] = length [4::int]
        \<and> (\<exists>x \<in> set [5::int]. x < 0 \<or> 1 < x))
   \<and> yields (build_row 4 0 1 0 [5] 3 1 StopIteration [4]) [4] = []
   \<and> ending (build_row 4 0 1 0 [5] 3 1 StopIteration [4]) [4] = Return ()"
proof -
  have h1: "(1::int) \<le> 1 \<and> 8 * 1 \<le> int 8" by simp
  have h2: "(1::int) \<le> 3 \<and> nat (3 - 1) < (4::nat)" by simp
  have h3: "(0::int) \<le> 3 \<and> nat 3 < (4::nat) \<and> length [5::int] = length [4::int]
        \<and> (\<exists>x \<in> set [5::int]. x < 0 \<or> 1 < x)" by simp
  have e: "find_minimal_hadamard 8 1 0 1 = ([ElapsedTime 1], Return (Some [4, 2, 1]))"
    using find_minimal_hadamard_1[of 0 1] by simp
  note t = search_terminates[of 1 8 0 1 1 3 4 1 4 "[7]" 1 "[7]"]
  note t' = search_terminates[of 1 8 0 1 0 3 4 1 0 "[5]" 1 "[4]"]
  have d: "design 1 [4, 2, 1]"
    using t h1 e by auto
  show ?thesis
    using t t' h1 h2 h3 e d by blast
qed

section \<open>Parameters that are not positive\<close>

lemma backtrack_nonpositive:
  assumes "n \<le> 0"
  shows "backtrack fuel (4 * n) (2 * n - 1) (4 * n - 1) n [0]
       = ([0], if 2 \<le> fuel then Raised ValueError else OutOfFuel)"
proof (cases fuel)
  case 0
  then show ?thesis by simp
next
  case (Suc f)
  have ne: "(1::int) \<noteq> 4 * n - 1" using assms by simp
  show ?thesis
  proof (cases f)
    case 0
    then show ?thesis using ne by (simp add: Suc)
  next
    case (Suc f')
    have m: "(0::int) \<noteq> 4 * n - 1" "\<not> 0 < 2 * n - 1" "4 * n - 1 - 1 - 0 < 0"
      using assms by simp_all
    have "build_row (Suc f') 0 (2 * n - 1) 0 [n - 1] (4 * n - 1) n StopIteration [0]
        = GenRaise ValueError [0]"
      using m by (simp add: rshift_def Let_def)
    then show ?thesis using ne by (simp add: \<open>fuel = Suc f\<close> Suc)
  qed
qed

text \<open>
  Claim C10. \<^verbatim>\<open>find_minimal_hadamard\<close> does not validate its parameter: for every
  \<open>n \<le> 0\<close> the call prints nothing and does not return; the bit test
  \<^verbatim>\<open>prev >> (m - 1 - bit_index)\<close> of the first \<^verbatim>\<open>build_row\<close> frame raises
  \<^verbatim>\<open>ValueError\<close> (negative shift count), which needs a budget of two frames to be reached.
\<close>

theorem nonpositive_parameter_raises:
  assumes "n \<le> 0"
  shows "find_minimal_hadamard fuel n start_time end_time
           = ([], if 2 \<le> fuel then Raised ValueError else OutOfFuel)
       \<and> main fuel n start_time end_time
           = ([], if 2 \<le> fuel then Raised ValueError else OutOfFuel)
       \<and> clear_loop (zip [0] [n - 1]) (4 * n - 1 - 1 - 0) (4 * n - 1 - 0) [] = Inl ValueError"
proof -
  have "[0..2 * n - 1 - 1] = []" using assms by simp
  then have f: "find_minimal_hadamard fuel n start_time end_time
           = ([], if 2 \<le> fuel then Raised ValueError else OutOfFuel)"
    unfolding find_minimal_hadamard_def Let_def
    by (simp add: backtrack_nonpositive[OF assms])
  have "4 * n - 1 - 1 - 0 < 0" using assms by simp
  then have "clear_loop (zip [0] [n - 1]) (4 * n - 1 - 1 - 0) (4 * n - 1 - 0) [] = Inl ValueError"
    by (simp add: rshift_def)
  then show ?thesis using f by (simp add: main_def)
qed

theorem nonpositive_parameter_raises_witness:
  "(0::int) \<le> 0
   \<and> find_minimal_hadamard 8 0 0 1 = ([], Raised ValueError)
   \<and> main 8 0 0 1 = ([], Raised ValueError)
   \<and> main 8 (- 3) 0 1 = ([], Raised ValueError)"
proof -
  have h: "(0::int) \<le> 0" "(- 3::int) \<le> 0" by simp_all
  show ?thesis
    using nonpositive_parameter_raises[OF h(1), of 8 0 1]
      nonpositive_parameter_raises[OF h(2), of 8 0 1] by simp
qed

section \<open>The printed matrix\<close>

lemma upto_from_0: "0 \<le> m \<Longrightarrow> [0..m - 1] = map int [0..<nat m]"
proof (induction "nat m" arbitrary: m)
  case 0
  then show ?case by simp
next
  case (Suc k)
  then have m: "m - 1 = int k" "nat m = Suc k" "0 \<le> m - 1" by auto
  have "[0..m - 1] = [0..m - 1 - 1] @ [m - 1]" using m(3) by (rule upto_rec2)
  also have "[0..m - 1 - 1] = map int [0..<nat (m - 1)]"
    using Suc(1)[of "m - 1"] m by simp
  finally show ?case using m by simp
qed

lemma upto_from_1: "[1..int k] = map (\<lambda>i. int i + 1) [0..<k]"
proof (induction k)
  case 0
  show ?case by simp
next
  case (Suc k)
  have "[1..int (Suc k)] = [1..int (Suc k) - 1] @ [int (Suc k)]"
    by (rule upto_rec2) simp
  then show ?case using Suc by simp
qed

lemma row_list_bits:
  assumes "0 \<le> m"
  shows "row_list m row = 1 # bits_msb_first (nat m) row"
proof -
  have "nat (m - 1 - int j) = nat m - 1 - j" for j by simp
  then show ?thesis
    by (simp add: row_list_def bits_msb_first_def upto_from_0[OF assms] bit_test_iff comp_def)
qed

lemma zip_enumerate: "zip [1..int (length xs)] xs = map (\<lambda>i. (int i + 1, xs ! i)) [0..<length xs]"
proof -
  have "zip (map (\<lambda>i. int i + 1) [0..<length xs]) (map ((!) xs) [0..<length xs])
      = map (\<lambda>i. (int i + 1, xs ! i)) [0..<length xs]"
    by (simp add: zip_map_map zip_same_conv_map)
  then show ?thesis by (simp add: upto_from_1 map_nth)
qed

lemma print_hadamard_01_lines:
  "print_hadamard_01 n rows_bitmask =
     map (\<lambda>i. RowLine (int i)
                ((replicate (nat (4 * n)) 1 # map (row_list (4 * n - 1)) rows_bitmask) ! i))
       [0..<Suc (length rows_bitmask)]"
proof -
  have "[0..<Suc (length rows_bitmask)] = 0 # map Suc [0..<length rows_bitmask]"
    by (simp add: upt_conv_Cons map_Suc_upt del: upt_Suc)
  then show ?thesis
    by (simp add: print_hadamard_01_def Let_def zip_enumerate comp_def add.commute del: upt_Suc)
qed

lemma set_bits_msb_first: "set (bits_msb_first w r) \<subseteq> {0, 1}"
  by (auto simp: bits_msb_first_def)

lemma length_bits_msb_first [simp]: "length (bits_msb_first w r) = w"
  by (simp add: bits_msb_first_def)

lemma main_unfold:
  assumes "1 \<le> n" "8 * n \<le> int fuel"
  obtains (exhausted) "find_minimal_hadamard fuel n start_time end_time
                         = ([ElapsedTime (end_time - start_time)], Return None)"
      "main fuel n start_time end_time = ([ElapsedTime (end_time - start_time)], Return ())"
  | (found) rows where "find_minimal_hadamard fuel n start_time end_time
                         = ([ElapsedTime (end_time - start_time)], Return (Some rows))"
      "design n rows"
      "main fuel n start_time end_time
         = (ElapsedTime (end_time - start_time) # print_hadamard_01 n rows, Return ())"
proof -
  from find_minimal_hadamard_unfold[of n] assms obtain r where pd: "partial_design n [r]"
    and u: "find_minimal_hadamard fuel n start_time end_time =
      (case backtrack fuel (4 * n) (2 * n - 1) (4 * n - 1) n [r] of
         (matrix, Return result) \<Rightarrow> ([ElapsedTime (end_time - start_time)], Return result)
       | (matrix, Raised e) \<Rightarrow> ([], Raised e)
       | (matrix, OutOfFuel) \<Rightarrow> ([], OutOfFuel))"
    by metis
  from backtrack_returns[of n "[r]" fuel] assms
  obtain rows' result where b: "backtrack fuel (4 * n) (2 * n - 1) (4 * n - 1) n [r]
      = (rows', Return result)"
    by auto
  have f: "find_minimal_hadamard fuel n start_time end_time
      = ([ElapsedTime (end_time - start_time)], Return result)"
    by (simp add: u b)
  show thesis
  proof (cases result)
    case None
    show ?thesis
      by (rule exhausted) (simp_all add: main_def f None truthy_def)
  next
    case (Some rows)
    have d: "design n rows"
      using backtrack_design[OF assms(1) pd, of fuel rows' rows] b Some by simp
    then have "int (length rows) = 4 * n - 1" by (simp add: design_def)
    with assms(1) have "0 < length rows" by linarith
    then have "rows \<noteq> []" by simp
    then show ?thesis
      using d by (intro found[of rows]) (simp_all add: main_def f Some truthy_def)
  qed
qed

text \<open>
  Claim C6. For \<open>n \<ge> 1\<close> (and a recursion budget of at least \<open>8n\<close>) the program prints the
  elapsed-time line first, whether or not the search succeeded. After a failed search it
  prints nothing else. After a successful one it prints exactly \<open>4n\<close> lines
  \<^verbatim>\<open>Row i:\<close> for \<open>i = 0, \<dots>, 4n - 1\<close>, each with \<open>4n\<close> values from \<open>{0, 1}\<close>; row \<open>0\<close> is all
  ones, and row \<open>i + 1\<close> is a \<open>1\<close> followed by the \<open>4n - 1\<close> bits of the \<open>i\<close>-th row of the
  design, most significant first. (The formatting of the elapsed time to six decimal
  places is not modelled.)
\<close>

theorem program_output:
  assumes "1 \<le> n" and "8 * n \<le> int fuel"
  shows "\<exists>result. find_minimal_hadamard fuel n start_time end_time
                     = ([ElapsedTime (end_time - start_time)], Return result)
     \<and> (case result of
           None \<Rightarrow> main fuel n start_time end_time
                     = ([ElapsedTime (end_time - start_time)], Return ())
         | Some rows \<Rightarrow>
             (\<exists>grid. main fuel n start_time end_time
                       = (ElapsedTime (end_time - start_time)
                            # map (\<lambda>i. RowLine (int i) (grid ! i)) [0..<nat (4 * n)], Return ())
                \<and> length grid = nat (4 * n)
                \<and> (\<forall>i < nat (4 * n). length (grid ! i) = nat (4 * n) \<and> set (grid ! i) \<subseteq> {0, 1})
                \<and> grid ! 0 = replicate (nat (4 * n)) 1
                \<and> length rows = nat (4 * n - 1)
                \<and> (\<forall>i < length rows.
                      grid ! Suc i = 1 # bits_msb_first (nat (4 * n - 1)) (rows ! i))))"
  using assms
proof (cases rule: main_unfold[where n=n and fuel=fuel and start_time=start_time
      and end_time=end_time])
  case exhausted
  then show ?thesis by simp
next
  case (found rows)
  define grid where "grid = replicate (nat (4 * n)) 1 # map (row_list (4 * n - 1)) rows"
  have len: "length rows = nat (4 * n - 1)" "Suc (length rows) = nat (4 * n)"
    using found(2) assms(1) by (auto simp: design_def)
  have m: "(0::int) \<le> 4 * n - 1" using assms(1) by simp
  have r: "grid ! Suc i = 1 # bits_msb_first (nat (4 * n - 1)) (rows ! i)" if "i < length rows" for i
    using that by (simp add: grid_def row_list_bits[OF m])
  have "length (grid ! i) = nat (4 * n) \<and> set (grid ! i) \<subseteq> {0, 1}" if "i < nat (4 * n)" for i
  proof (cases i)
    case 0
    then show ?thesis by (auto simp: grid_def)
  next
    case (Suc k)
    then have k: "k < length rows" using that len by simp
    show ?thesis
      using set_bits_msb_first[of "nat (4 * n - 1)" "rows ! k"] len
      by (simp add: Suc r[OF k])
  qed
  moreover have "main fuel n start_time end_time
         = (ElapsedTime (end_time - start_time)
              # map (\<lambda>i. RowLine (int i) (grid ! i)) [0..<nat (4 * n)], Return ())"
    by (simp only: found(3) print_hadamard_01_lines grid_def len(2))
  moreover have "length grid = nat (4 * n)" "grid ! 0 = replicate (nat (4 * n)) 1"
    using len by (simp_all add: grid_def)
  ultimately show ?thesis
    using found(1) len(1) r by auto
qed

theorem program_output_witness:
  "((1::int) \<le> 1 \<and> 8 * 1 \<le> int 8)
   \<and> main 8 1 0 1
       = ([ElapsedTime 1, RowLine 0 [1, 1, 1, 1], RowLine 1 [1, 1, 0, 0],
           RowLine 2 [1, 0, 1, 0], RowLine 3 [1, 0, 0, 1]], Return ())"
proof -
  have h: "(1::int) \<le> 1" "8 * 1 \<le> int 8" by simp_all
  have e: "find_minimal_hadamard 8 1 0 1 = ([ElapsedTime 1], Return (Some [4, 2, 1]))"
    using find_minimal_hadamard_1[of 0 1] by simp
  from program_output[OF h, of 0 1] e
  obtain grid where g: "main 8 1 0 1
        = (ElapsedTime (1 - 0) # map (\<lambda>i. RowLine (int i) (grid ! i)) [0..<nat (4 * 1)],
           Return ())"
    "grid ! 0 = replicate (nat (4 * 1)) 1"
    "\<forall>i < length [4, 2, 1 :: int].
        grid ! Suc i = 1 # bits_msb_first (nat (4 * 1 - 1)) ([4, 2, 1] ! i)"
    by auto
  have b: "bits_msb_first 3 4 = [1, 0, 0]" "bits_msb_first 3 2 = [0, 1, 0]"
    "bits_msb_first 3 1 = [0, 0, 1]"
    by code_simp+
  have u: "[0..<4] = [0, 1, 2, 3]" "replicate 4 (1::int) = [1, 1, 1, 1]"
    by code_simp+
  have s: "Suc 1 = 2" "Suc 2 = 3" by simp_all
  have "grid ! 1 = [1, 1, 0, 0]" "grid ! 2 = [1, 0, 1, 0]" "grid ! 3 = [1, 0, 0, 1]"
    using g(3)[rule_format, of 0] g(3)[rule_format, of 1] g(3)[rule_format, of 2] b
    unfolding s by simp_all
  then show ?thesis
    using g(1,2) h by (simp add: u)
qed

section \<open>From the design to the Hadamard matrix\<close>

lemma popcount_sum_bits:
  "0 \<le> x \<Longrightarrow> x < 2 ^ w \<Longrightarrow> (\<Sum>j<w. of_bool (bit x j)) = int (popcount x)"
proof (induction w arbitrary: x)
  case 0
  then have "x = 0" by simp
  then show ?case by simp
next
  case (Suc w)
  have IH: "(\<Sum>j<w. of_bool (bit (x div 2) j)) = int (popcount (x div 2))"
    using Suc.prems by (intro Suc.IH) auto
  have "(\<Sum>j<Suc w. of_bool (bit x j)) = (of_bool (bit x 0) :: int) + (\<Sum>j<w. of_bool (bit x (Suc j)))"
    by (simp only: sum.lessThan_Suc_shift comp_def)
  also have "\<dots> = x mod 2 + int (popcount (x div 2))"
    using IH by (simp add: bit_Suc bit_0 mod_2_eq_odd del: sum_of_bool_eq)
  also have "\<dots> = int (popcount x)"
  proof (cases "x \<le> 0")
    case True
    then have "x = 0" using Suc.prems by simp
    then show ?thesis by simp
  next
    case False
    then show ?thesis by (subst (2) popcount.simps) simp
  qed
  finally show ?case .
qed

lemma dot_maps: "dot (map f [0..<w]) (map g [0..<w]) = (\<Sum>j<w. f j * g j)"
proof -
  have "dot (map f [0..<w]) (map g [0..<w]) = sum_list (map (\<lambda>j. f j * g j) [0..<w])"
    by (simp add: dot_def zip_map_map zip_same_conv_map comp_def)
  also have "\<dots> = (\<Sum>j<w. f j * g j)"
    by (simp add: interv_sum_list_conv_sum_set_nat atLeast0LessThan)
  finally show ?thesis .
qed

lemma dot_Cons [simp]: "dot (x # xs) (y # ys) = x * y + dot xs ys"
  by (simp add: dot_def)

lemma pm_bits: "map pm (bits_msb_first w r) = map (\<lambda>j. 2 * of_bool (bit r (w - 1 - j)) - 1) [0..<w]"
  by (simp add: bits_msb_first_def pm_def)

lemma ones: "replicate w (1::int) = map (\<lambda>j. 1) [0..<w]"
  by (simp add: map_replicate_const)

lemma sum_msb_first: "(\<Sum>j<(w::nat). F (w - 1 - j)) = (\<Sum>j<w. (F j :: int))"
  using sum.nat_diff_reindex[where g=F and n=w] by (simp del: sum_of_bool_eq)

lemma dot_pm_bits:
  assumes "0 \<le> a" "a < 2 ^ w" "0 \<le> b" "b < 2 ^ w"
  shows "dot (map pm (bits_msb_first w a)) (map pm (bits_msb_first w b))
       = 4 * int (popcount (a AND b)) - 2 * int (popcount a) - 2 * int (popcount b) + int w"
proof -
  have ab: "0 \<le> a AND b" "a AND b < 2 ^ w" using and_bounds[OF assms(1,2)] by auto
  have "dot (map pm (bits_msb_first w a)) (map pm (bits_msb_first w b))
      = (\<Sum>j<w. (2 * of_bool (bit a (w - 1 - j)) - 1) * (2 * of_bool (bit b (w - 1 - j)) - 1))"
    unfolding pm_bits by (rule dot_maps)
  also have "\<dots> = (\<Sum>j<w. (2 * of_bool (bit a j) - 1) * (2 * of_bool (bit b j) - 1))"
    by (rule sum_msb_first[of "\<lambda>j. (2 * of_bool (bit a j) - 1) * (2 * of_bool (bit b j) - 1)"])
  also have "\<dots> = (\<Sum>j<w. 4 * of_bool (bit (a AND b) j) - 2 * of_bool (bit a j)
                          - 2 * of_bool (bit b j) + 1)"
    by (intro sum.cong refl) (simp add: bit_and_iff del: sum_of_bool_eq)
  also have "\<dots> = 4 * (\<Sum>j<w. of_bool (bit (a AND b) j)) - 2 * (\<Sum>j<w. of_bool (bit a j))
                    - 2 * (\<Sum>j<w. of_bool (bit b j)) + int w"
    by (simp add: sum.distrib sum_subtractf sum_distrib_left del: sum_of_bool_eq)
  finally show ?thesis
    by (simp only: popcount_sum_bits[OF assms(1,2)] popcount_sum_bits[OF assms(3,4)]
        popcount_sum_bits[OF ab])
qed

lemma dot_ones_pm_bits:
  assumes "0 \<le> a" "a < 2 ^ w"
  shows "dot (replicate w 1) (map pm (bits_msb_first w a)) = 2 * int (popcount a) - int w"
    and "dot (map pm (bits_msb_first w a)) (replicate w 1) = 2 * int (popcount a) - int w"
proof -
  have "(\<Sum>j<w. 2 * of_bool (bit a (w - 1 - j)) - 1) = (\<Sum>j<w. 2 * of_bool (bit a j) - (1::int))"
    by (rule sum_msb_first[of "\<lambda>j. 2 * of_bool (bit a j) - 1"])
  also have "\<dots> = 2 * (\<Sum>j<w. of_bool (bit a j)) - int w"
    by (simp add: sum_subtractf sum_distrib_left del: sum_of_bool_eq)
  finally have s: "(\<Sum>j<w. 2 * of_bool (bit a (w - 1 - j)) - 1) = 2 * int (popcount a) - int w"
    by (simp only: popcount_sum_bits[OF assms])
  show "dot (replicate w 1) (map pm (bits_msb_first w a)) = 2 * int (popcount a) - int w"
    unfolding pm_bits ones using s by (simp add: dot_maps)
  show "dot (map pm (bits_msb_first w a)) (replicate w 1) = 2 * int (popcount a) - int w"
    unfolding pm_bits ones using s by (simp add: dot_maps)
qed

lemma dot_ones: "dot (replicate w 1) (replicate w 1) = int w"
  unfolding ones by (simp add: dot_maps)

lemma design_hadamard:
  assumes "1 \<le> n" "design n rows"
  shows "length (map (map pm \<circ> row_values) (print_hadamard_01 n rows)) = nat (4 * n)"
    and "hadamard (map (map pm \<circ> row_values) (print_hadamard_01 n rows))"
proof -
  define w where "w = nat (4 * n - 1)"
  define H where "H = map (map pm \<circ> row_values) (print_hadamard_01 n rows)"
  define tail where "tail = (\<lambda>i. case i of 0 \<Rightarrow> replicate w 1
                                | Suc k \<Rightarrow> map pm (bits_msb_first w (rows ! k)))"
  have len: "length rows = w" and n4: "nat (4 * n) = Suc w" and wn: "int w = 4 * n - 1"
    and m: "(0::int) \<le> 4 * n - 1"
    using assms by (auto simp: design_def w_def)
  have row: "0 \<le> rows ! k" "rows ! k < 2 ^ w" "int (popcount (rows ! k)) = 2 * n - 1"
    if "k < w" for k
    using assms(2) that len by (auto simp: design_def partial_design_def w_def)
  have pair: "int (popcount (rows ! k AND rows ! l)) = n - 1" if "k < w" "l < w" "k \<noteq> l" for k l
    using assms(2) that len by (auto simp: design_def partial_design_def)
  have lenH: "length H = Suc w"
    by (simp add: H_def print_hadamard_01_lines len del: upt_Suc)
  have Hi: "H ! i = 1 # tail i" if "i < Suc w" for i
  proof (cases i)
    case 0
    then show ?thesis
      by (simp add: H_def print_hadamard_01_lines len n4 tail_def pm_def del: upt_Suc)
  next
    case (Suc k)
    then have k: "k < w" using that by simp
    have "H ! i = map pm (row_list (4 * n - 1) (rows ! k))"
      unfolding H_def print_hadamard_01_lines
      using that k len by (simp add: Suc del: upt_Suc)
    then show ?thesis
      by (simp add: row_list_bits[OF m] tail_def Suc pm_def flip: w_def)
  qed
  have lt: "length (tail i) = w" for i
    by (cases i) (simp_all add: tail_def)
  have st: "set (tail i) \<subseteq> {- 1, 1}" for i
    by (cases i) (auto simp: tail_def pm_def)
  have d: "dot (tail i) (tail j) = (if i = j then int w else - 1)" if "i < Suc w" "j < Suc w" for i j
  proof (cases i)
    case i0: 0
    show ?thesis
    proof (cases j)
      case 0
      then show ?thesis by (simp add: i0 tail_def dot_ones)
    next
      case (Suc l)
      then have l: "l < w" using that by simp
      show ?thesis
        using row[OF l] wn by (simp add: i0 Suc tail_def dot_ones_pm_bits)
    qed
  next
    case iS: (Suc k)
    then have k: "k < w" using that by simp
    show ?thesis
    proof (cases j)
      case 0
      then show ?thesis
        using row[OF k] wn by (simp add: iS tail_def dot_ones_pm_bits)
    next
      case (Suc l)
      then have l: "l < w" using that by simp
      show ?thesis
      proof (cases "k = l")
        case True
        then show ?thesis
          using row[OF k] by (simp add: iS Suc tail_def dot_pm_bits)
      next
        case False
        then show ?thesis
          using row[OF k] row[OF l] pair[OF k l False] wn
          by (simp add: iS Suc tail_def dot_pm_bits)
      qed
    qed
  qed
  show "length (map (map pm \<circ> row_values) (print_hadamard_01 n rows)) = nat (4 * n)"
    using lenH by (simp add: H_def n4)
  have "hadamard H"
    unfolding hadamard_def lenH
  proof (intro allI impI conjI)
    fix i assume i: "i < Suc w"
    show "length (H ! i) = Suc w" by (simp add: Hi[OF i] lt)
    show "set (H ! i) \<subseteq> {- 1, 1}" using st[of i] by (simp add: Hi[OF i])
    fix j assume j: "j < Suc w"
    show "dot (H ! i) (H ! j) = (if i = j then int (Suc w) else 0)"
      by (simp add: Hi[OF i] Hi[OF j] d[OF i j])
  qed
  then show "hadamard (map (map pm \<circ> row_values) (print_hadamard_01 n rows))"
    by (simp add: H_def)
qed

text \<open>
  Claim C2. For \<open>n \<ge> 1\<close>, when \<^verbatim>\<open>find_minimal_hadamard(n)\<close> returns a design, the matrix
  that \<^verbatim>\<open>print_hadamard_01\<close> prints for it, with \<open>0\<close> mapped to \<open>-1\<close> and \<open>1\<close> to \<open>+1\<close>, has
  \<open>4n\<close> rows of \<open>4n\<close> entries \<open>\<plusminus>1\<close>, the dot product of every row with itself is \<open>4n\<close>,
  and the dot product of any two different rows is \<open>0\<close>.
\<close>

theorem expanded_matrix_is_hadamard:
  assumes "1 \<le> n"
    and "find_minimal_hadamard fuel n start_time end_time = (out, Return (Some rows))"
  shows "let H = map (map pm \<circ> row_values) (print_hadamard_01 n rows) in
           length H = nat (4 * n)
         \<and> (\<forall>i < nat (4 * n). length (H ! i) = nat (4 * n) \<and> set (H ! i) \<subseteq> {- 1, 1}
              \<and> (\<forall>j < nat (4 * n). dot (H ! i) (H ! j) = (if i = j then 4 * n else 0)))"
proof -
  have d: "design n rows" using assms by (rule returned_design)
  have n4: "int (nat (4 * n)) = 4 * n" using assms(1) by simp
  show ?thesis
    using design_hadamard[OF assms(1) d] n4
    by (simp add: Let_def hadamard_def)
qed

theorem expanded_matrix_is_hadamard_witness:
  "(1::int) \<le> 1
   \<and> find_minimal_hadamard 8 1 0 1 = ([ElapsedTime 1], Return (Some [4, 2, 1]))
   \<and> map (map pm \<circ> row_values) (print_hadamard_01 1 [4, 2, 1])
       = [[1, 1, 1, 1], [1, 1, - 1, - 1], [1, - 1, 1, - 1], [1, - 1, - 1, 1]]
   \<and> dot [1, 1, - 1, - 1] [1, 1, - 1, - 1] = 4
   \<and> dot [1, 1, - 1, - 1] [1, - 1, - 1, 1] = 0"
proof -
  have h: "(1::int) \<le> 1" by simp
  have e: "find_minimal_hadamard 8 1 0 1 = ([ElapsedTime 1], Return (Some [4, 2, 1]))"
    using find_minimal_hadamard_1[of 0 1] by simp
  have H: "map (map pm \<circ> row_values) (print_hadamard_01 1 [4, 2, 1])
       = [[1, 1, 1, 1], [1, 1, - 1, - 1], [1, - 1, 1, - 1], [1, - 1, - 1, 1]]"
    by code_simp
  have t: "\<forall>i < 4. \<forall>j < 4.
      dot ([[1, 1, 1, 1], [1, 1, - 1, - 1], [1, - 1, 1, - 1], [1, - 1, - 1, 1]] ! i)
          ([[1, 1, 1, 1], [1, 1, - 1, - 1], [1, - 1, 1, - 1], [1, - 1, - 1, 1]] ! j)
        = (if i = j then 4 else 0)"
    using expanded_matrix_is_hadamard[OF h e] unfolding H Let_def by simp
  have "dot [1, 1, - 1, - 1] [1, 1, - 1, - 1] = 4"
    using t[rule_format, of 1 1] by simp
  moreover have "dot [1, 1, - 1, - 1] [1, - 1, - 1, 1] = 0"
    using t[rule_format, of 1 3] by simp
  ultimately show ?thesis using h e H by simp
qed

text \<open>
  Claim C9. For \<open>n = 1\<close> (first row \<open>0b100\<close>, required overlap \<open>0\<close>) the search succeeds with
  the design \<open>[0b100, 0b010, 0b001]\<close>; the program prints, after the elapsed-time line, the
  rows \<open>[1,1,1,1]\<close>, \<open>[1,1,0,0]\<close>, \<open>[1,0,1,0]\<close>, \<open>[1,0,0,1]\<close>, which under \<open>0 \<mapsto> -1\<close>,
  \<open>1 \<mapsto> +1\<close> form a Hadamard matrix of order \<open>4\<close>.
\<close>

theorem order_4:
  assumes "8 \<le> fuel"
  shows "find_minimal_hadamard fuel 1 start_time end_time
           = ([ElapsedTime (end_time - start_time)], Return (Some [4, 2, 1]))
       \<and> main fuel 1 start_time end_time
           = ([ElapsedTime (end_time - start_time), RowLine 0 [1, 1, 1, 1],
               RowLine 1 [1, 1, 0, 0], RowLine 2 [1, 0, 1, 0], RowLine 3 [1, 0, 0, 1]], Return ())
       \<and> hadamard (map (map pm) [[1, 1, 1, 1], [1, 1, 0, 0], [1, 0, 1, 0], [1, 0, 0, 1]])"
proof -
  have "backtrack fuel (4 * 1) (2 * 1 - 1) (4 * 1 - 1) 1 [4]
      = backtrack 8 (4 * 1) (2 * 1 - 1) (4 * 1 - 1) 1 [4]"
    using assms by (intro backtrack_fuel_irrelevant) auto
  then have b: "backtrack fuel 4 1 3 1 [4] = ([4, 2, 1], Return (Some [4, 2, 1]))"
    by (simp add: search_1)
  have f: "find_minimal_hadamard fuel 1 start_time end_time
           = ([ElapsedTime (end_time - start_time)], Return (Some [4, 2, 1]))"
    by (simp add: find_minimal_hadamard_def lshift_def b upto_rec1)
  have p: "print_hadamard_01 1 [4, 2, 1]
      = [RowLine 0 [1, 1, 1, 1], RowLine 1 [1, 1, 0, 0], RowLine 2 [1, 0, 1, 0],
         RowLine 3 [1, 0, 0, 1]]"
    by code_simp
  have m: "main fuel 1 start_time end_time
           = ([ElapsedTime (end_time - start_time), RowLine 0 [1, 1, 1, 1],
               RowLine 1 [1, 1, 0, 0], RowLine 2 [1, 0, 1, 0], RowLine 3 [1, 0, 0, 1]], Return ())"
    by (simp add: main_def f truthy_def p)
  have "design 1 [4, 2, 1]"
    using returned_design[OF _ f] by simp
  from design_hadamard(2)[OF _ this]
  have "hadamard (map (map pm) [[1, 1, 1, 1], [1, 1, 0, 0], [1, 0, 1, 0], [1, 0, 0, 1]])"
    by (simp add: p)
  with f m show ?thesis by simp
qed

theorem order_4_witness:
  "(8::nat) \<le> 8
   \<and> find_minimal_hadamard 8 1 0 1 = ([ElapsedTime 1], Return (Some [4, 2, 1]))
   \<and> main 8 1 0 1
       = ([ElapsedTime 1, RowLine 0 [1, 1, 1, 1], RowLine 1 [1, 1, 0, 0],
           RowLine 2 [1, 0, 1, 0], RowLine 3 [1, 0, 0, 1]], Return ())
   \<and> hadamard (map (map pm) [[1, 1, 1, 1], [1, 1, 0, 0], [1, 0, 1, 0], [1, 0, 0, 1]])"
  using order_4[of 8 0 1] by simp

section \<open>Determinism\<close>

text \<open>
  Claim C7. The search is deterministic. \<^verbatim>\<open>build_row\<close> only reads the shared list
  \<^verbatim>\<open>prev_rows\<close>: whenever the generator gives up control (at a \<^verbatim>\<open>yield\<close>, at its end, or
  by raising), the list holds what it held when the generator was given control, at every
  resumption. (The requirement lists are values here: every list a frame receives was built
  afresh by a loop of its caller, starting from \<^verbatim>\<open>[]\<close>, and no list is written to after
  that loop.) Two runs can therefore differ only in the recursion budget they have and in
  what the clock reads, and neither matters: with sufficient budgets the generators are
  equal, and two runs of the program for the same \<open>n \<ge> 1\<close> return the same result (the same
  design, or both \<^verbatim>\<open>None\<close>) and print the same matrix lines after their elapsed-time lines.
\<close>

theorem deterministic_search:
  "(1 \<le> n \<and> 8 * n \<le> int fuel \<and> 8 * n \<le> int fuel' \<longrightarrow>
      (\<exists>result matrix_lines.
          find_minimal_hadamard fuel n start_time end_time
            = ([ElapsedTime (end_time - start_time)], Return result)
        \<and> find_minimal_hadamard fuel' n start_time' end_time'
            = ([ElapsedTime (end_time' - start_time')], Return result)
        \<and> main fuel n start_time end_time
            = (ElapsedTime (end_time - start_time) # matrix_lines, Return ())
        \<and> main fuel' n start_time' end_time'
            = (ElapsedTime (end_time' - start_time') # matrix_lines, Return ())))
   \<and> (bit_index \<le> m \<and> nat (m - bit_index) < depth \<and> nat (m - bit_index) < depth' \<longrightarrow>
        build_row depth bit_index ones_left current_row overlaps_needed m k return prev_rows
      = build_row depth' bit_index ones_left current_row overlaps_needed m k return prev_rows)
   \<and> reads_only (build_row depth bit_index ones_left current_row overlaps_needed m k
                   StopIteration prev_rows) prev_rows"
proof (intro conjI impI)
  assume a: "1 \<le> n \<and> 8 * n \<le> int fuel \<and> 8 * n \<le> int fuel'"
  from find_minimal_hadamard_unfold[of n] a obtain r where
    u: "\<And>fuel start_time end_time. find_minimal_hadamard fuel n start_time end_time =
      (case backtrack fuel (4 * n) (2 * n - 1) (4 * n - 1) n [r] of
         (matrix, Return result) \<Rightarrow> ([ElapsedTime (end_time - start_time)], Return result)
       | (matrix, Raised e) \<Rightarrow> ([], Raised e)
       | (matrix, OutOfFuel) \<Rightarrow> ([], OutOfFuel))"
    by metis
  from backtrack_returns[of n "[r]" fuel] a
  obtain rows' result where b: "backtrack fuel (4 * n) (2 * n - 1) (4 * n - 1) n [r]
      = (rows', Return result)"
    by auto
  have "backtrack fuel' (4 * n) (2 * n - 1) (4 * n - 1) n [r]
      = backtrack fuel (4 * n) (2 * n - 1) (4 * n - 1) n [r]"
    using a by (intro backtrack_fuel_irrelevant) auto
  then have b': "backtrack fuel' (4 * n) (2 * n - 1) (4 * n - 1) n [r] = (rows', Return result)"
    using b by simp
  have f: "find_minimal_hadamard fuel n start_time end_time
            = ([ElapsedTime (end_time - start_time)], Return result)"
    and f': "find_minimal_hadamard fuel' n start_time' end_time'
            = ([ElapsedTime (end_time' - start_time')], Return result)"
    by (simp_all add: u b b')
  define matrix_lines where
    "matrix_lines = (if truthy result then print_hadamard_01 n (the result) else [])"
  have "main fuel n start_time end_time
            = (ElapsedTime (end_time - start_time) # matrix_lines, Return ())"
    and "main fuel' n start_time' end_time'
            = (ElapsedTime (end_time' - start_time') # matrix_lines, Return ())"
    by (simp_all add: main_def f f' matrix_lines_def)
  with f f' show "\<exists>result matrix_lines.
          find_minimal_hadamard fuel n start_time end_time
            = ([ElapsedTime (end_time - start_time)], Return result)
        \<and> find_minimal_hadamard fuel' n start_time' end_time'
            = ([ElapsedTime (end_time' - start_time')], Return result)
        \<and> main fuel n start_time end_time
            = (ElapsedTime (end_time - start_time) # matrix_lines, Return ())
        \<and> main fuel' n start_time' end_time'
            = (ElapsedTime (end_time' - start_time') # matrix_lines, Return ())"
    by blast
next
  assume "bit_index \<le> m \<and> nat (m - bit_index) < depth \<and> nat (m - bit_index) < depth'"
  then show "build_row depth bit_index ones_left current_row overlaps_needed m k return prev_rows
      = build_row depth' bit_index ones_left current_row overlaps_needed m k return prev_rows"
    by (intro build_row_fuel_irrelevant) auto
next
  show "reads_only (build_row depth bit_index ones_left current_row overlaps_needed m k
                   StopIteration prev_rows) prev_rows"
    by (rule build_row_reads_only) simp
qed

theorem deterministic_search_witness:
  "((1::int) \<le> 1 \<and> 8 * 1 \<le> int 8 \<and> 8 * 1 \<le> int 9)
   \<and> snd (find_minimal_hadamard 8 1 0 1) = snd (find_minimal_hadamard 9 1 5 7)
   \<and> main 8 1 0 1
       = ([ElapsedTime 1, RowLine 0 [1, 1, 1, 1], RowLine 1 [1, 1, 0, 0],
           RowLine 2 [1, 0, 1, 0], RowLine 3 [1, 0, 0, 1]], Return ())
   \<and> main 9 1 5 7
       = ([ElapsedTime 2, RowLine 0 [1, 1, 1, 1], RowLine 1 [1, 1, 0, 0],
           RowLine 2 [1, 0, 1, 0], RowLine 3 [1, 0, 0, 1]], Return ())
   \<and> ((0::int) \<le> 3 \<and> nat (3 - 0) < (4::nat) \<and> nat (3 - 0) < (5::nat))
   \<and> build_row 4 0 1 0 [0] 3 1 StopIteration [4]
       = build_row 5 0 1 0 [0] 3 1 StopIteration [4]
   \<and> (case build_row 4 0 1 0 [0] 3 1 StopIteration [4] of
         Yield candidate rows resume \<Rightarrow> (candidate, rows) | _ \<Rightarrow> (0, []))
       = (2, [4])"
proof -
  have y: "(case build_row 4 0 1 0 [0] 3 1 StopIteration [4] of
         Yield candidate rows resume \<Rightarrow> (candidate, rows) | _ \<Rightarrow> (0, []))
       = (2, [4])"
    by code_simp
  have h1: "(1::int) \<le> 1 \<and> 8 * 1 \<le> int 8 \<and> 8 * 1 \<le> int 9" by simp
  have h2: "(0::int) \<le> 3 \<and> nat (3 - 0) < (4::nat) \<and> nat (3 - 0) < (5::nat)" by simp
  note t = deterministic_search[of 1 8 9 0 1 5 7 0 3 4 5 1 0 "[0]" 1 StopIteration "[4]"]
  from t h1 obtain result matrix_lines where
    r: "find_minimal_hadamard 8 1 0 1 = ([ElapsedTime (1 - 0)], Return result)"
      "find_minimal_hadamard 9 1 5 7 = ([ElapsedTime (7 - 5)], Return result)"
      "main 8 1 0 1 = (ElapsedTime (1 - 0) # matrix_lines, Return ())"
      "main 9 1 5 7 = (ElapsedTime (7 - 5) # matrix_lines, Return ())"
    by blast
  have m: "main 8 1 0 1
       = ([ElapsedTime 1, RowLine 0 [1, 1, 1, 1], RowLine 1 [1, 1, 0, 0],
           RowLine 2 [1, 0, 1, 0], RowLine 3 [1, 0, 0, 1]], Return ())"
    by (simp add: main_def find_minimal_hadamard_1 truthy_def print_hadamard_01_lines
        row_list_def upto_rec1 del: upt_Suc) code_simp
  have "matrix_lines = [RowLine 0 [1, 1, 1, 1], RowLine 1 [1, 1, 0, 0],
           RowLine 2 [1, 0, 1, 0], RowLine 3 [1, 0, 0, 1]]"
    using r(3) m by simp
  then show ?thesis
    using r t h1 h2 m y by simp
qed

end
